theory Spec2Isabelle
  imports Complex_Main "HOL-Library.Char_ord" "HOL-Library.List_Lexorder" "HOL-Library.AList"
begin

section \<open>The values of the dashboard's rows\<close>

text \<open>
  The rows of the dashboard are flat JSON objects: a field holds a string, a finite
  number or null, and a field the object does not have reads as undefined. Numbers are
  the reals they denote; the results of a numeric conversion, which can be NaN or
  infinite, have a type of their own. Strings are sequences of code units below 256.
\<close>

datatype jsval = JUndefined | JNull | JStr string | JNum real

datatype jsnum = Fin real | NaN | PosInf | NegInf

type_synonym row = "(string \<times> jsval) list"

definition get :: "row \<Rightarrow> string \<Rightarrow> jsval" where
  "get r k = (case map_of r k of None \<Rightarrow> JUndefined | Some v \<Rightarrow> v)"

definition nullish :: "jsval \<Rightarrow> bool" where
  "nullish v = (v = JUndefined \<or> v = JNull)"

text \<open>\<open>!v\<close> is true of undefined, null, the empty string and zero.\<close>

fun truthy :: "jsval \<Rightarrow> bool" where
  "truthy JUndefined = False"
| "truthy JNull = False"
| "truthy (JStr s) = (s \<noteq> [])"
| "truthy (JNum x) = (x \<noteq> 0)"

definition isFinite :: "jsnum \<Rightarrow> bool" where
  "isFinite n = (case n of Fin _ \<Rightarrow> True | _ \<Rightarrow> False)"

section \<open>Strings of the runtime\<close>

text \<open>
  White space, as \<open>trim\<close> and the class \<open>\s\<close> read it, restricted to code units
  below 256: tab, line feed, vertical tab, form feed, carriage return, space and the
  no-break space.
\<close>

definition isWhite :: "char \<Rightarrow> bool" where
  "isWhite c = (of_char c \<in> {9, 10, 11, 12, 13, 32, 160 :: nat})"

definition trim :: "string \<Rightarrow> string" where
  "trim s = rev (dropWhile isWhite (rev (dropWhile isWhite s)))"

definition toLowerChar :: "char \<Rightarrow> char" where
  "toLowerChar c =
     (let n = (of_char c :: nat)
      in if (65 \<le> n \<and> n \<le> 90) \<or> (192 \<le> n \<and> n \<le> 222 \<and> n \<noteq> 215)
         then char_of (n + 32) else c)"

definition toLowerCase :: "string \<Rightarrow> string" where
  "toLowerCase s = map toLowerChar s"

text \<open>
  \<open>s.replace(/\s+/g, " ")\<close>: every maximal run of white space becomes one space.
\<close>

fun collapseFrom :: "bool \<Rightarrow> string \<Rightarrow> string" where
  "collapseFrom inRun [] = []"
| "collapseFrom inRun (c # cs) =
     (if isWhite c
      then (if inRun then collapseFrom True cs else CHR '' '' # collapseFrom True cs)
      else c # collapseFrom False cs)"

definition collapseWhite :: "string \<Rightarrow> string" where
  "collapseWhite s = collapseFrom False s"

text \<open>Decimal digits of a natural number, as \<open>String\<close> prints an integer.\<close>

fun digitsOfNat :: "nat \<Rightarrow> string" where
  "digitsOfNat n =
     (if n < 10 then [char_of (48 + n)]
      else digitsOfNat (n div 10) @ [char_of (48 + n mod 10)])"

declare digitsOfNat.simps [simp del]

section \<open>Numbers of the runtime\<close>

subsection \<open>Rounding to a double\<close>

text \<open>
  A number of the program is a double. The model keeps the real number a finite double
  denotes and writes the rounding out: \<open>fl64 x\<close> is the double nearest to \<open>x\<close>,
  ties to the even significand, with 53 bits of significand above the exponent
  \<open>-1022\<close> and the subnormal spacing \<open>2 powi (-1074)\<close> below. \<open>binexp x\<close> is the
  exponent of the binade of a positive \<open>x\<close>. A result of magnitude \<open>2 powi 1024\<close> is
  an overflow, which \<open>toDouble\<close> turns into an infinity.
\<close>

function expUp :: "real \<Rightarrow> int" where
  "expUp x = (if 2 \<le> x then expUp (x / 2) + 1 else 0)"
  by pat_completeness auto
termination
proof (relation "measure (\<lambda>x. nat \<lfloor>x\<rfloor>)")
  show "wf (measure (\<lambda>x::real. nat \<lfloor>x\<rfloor>))" by simp
next
  fix x :: real
  assume "2 \<le> x"
  then have "x / 2 < of_int \<lfloor>x\<rfloor>" by linarith
  then have "\<lfloor>x / 2\<rfloor> < \<lfloor>x\<rfloor>" by (simp add: floor_less_iff)
  moreover have "0 < \<lfloor>x\<rfloor>" using \<open>2 \<le> x\<close> by linarith
  ultimately show "(x / 2, x) \<in> measure (\<lambda>x. nat \<lfloor>x\<rfloor>)" by simp
qed

lemma ceiling_half_less:
  fixes y :: real
  assumes "1 < y"
  shows "\<lceil>y / 2\<rceil> < \<lceil>y\<rceil>"
proof -
  have a: "of_int \<lceil>y / 2\<rceil> - 1 < y / 2" "y \<le> of_int \<lceil>y\<rceil>"
    using ceiling_correct[of "y / 2"] ceiling_correct[of y] by simp_all
  have "(of_int \<lceil>y / 2\<rceil> :: real) < of_int \<lceil>y\<rceil>"
  proof (cases "2 \<le> y")
    case True
    with a show ?thesis by linarith
  next
    case False
    have "\<lceil>y / 2\<rceil> \<le> 1" using False by (simp add: ceiling_le_iff)
    moreover have "2 \<le> \<lceil>y\<rceil>" using assms by (simp add: le_ceiling_iff)
    ultimately have "\<lceil>y / 2\<rceil> < \<lceil>y\<rceil>" by linarith
    then show ?thesis by simp
  qed
  then show ?thesis by simp
qed

function expDown :: "real \<Rightarrow> int" where
  "expDown x = (if 0 < x \<and> x < 1 then expDown (2 * x) - 1 else 0)"
  by pat_completeness auto
termination
proof (relation "measure (\<lambda>x. nat \<lceil>1 / x\<rceil>)")
  show "wf (measure (\<lambda>x::real. nat \<lceil>1 / x\<rceil>))" by simp
next
  fix x :: real
  assume a: "0 < x \<and> x < 1"
  then have y: "1 < 1 / x" by simp
  have h: "1 / (2 * x) = (1 / x) / 2" by simp
  have "\<lceil>(1 / x) / 2\<rceil> < \<lceil>1 / x\<rceil>" using y by (rule ceiling_half_less)
  moreover have "0 < \<lceil>1 / x\<rceil>" using y by linarith
  ultimately show "(2 * x, x) \<in> measure (\<lambda>x. nat \<lceil>1 / x\<rceil>)"
    by (simp add: h)
qed

declare expUp.simps [simp del] expDown.simps [simp del]

definition binexp :: "real \<Rightarrow> int" where
  "binexp x = (if 1 \<le> x then expUp x else expDown x)"

definition roundHalfEven :: "real \<Rightarrow> int" where
  "roundHalfEven r =
     (let f = \<lfloor>r\<rfloor>; d = r - of_int f
      in if d < 1 / 2 then f else if 1 / 2 < d then f + 1
         else if even f then f else f + 1)"

definition fl64 :: "real \<Rightarrow> real" where
  "fl64 x =
     (if x = 0 then 0
      else let e = max (binexp \<bar>x\<bar>) (- 1022); q = 2 powi (e - 52)
           in of_int (roundHalfEven (x / q)) * q)"

definition toDouble :: "real \<Rightarrow> jsnum" where
  "toDouble x =
     (let y = fl64 x
      in if 2 powi 1024 \<le> y then PosInf
         else if y \<le> - (2 powi 1024) then NegInf else Fin y)"

text \<open>The arithmetic of doubles, on finite operands with a finite result.\<close>

definition fadd :: "real \<Rightarrow> real \<Rightarrow> real" where
  "fadd a b = fl64 (a + b)"

definition fsub :: "real \<Rightarrow> real \<Rightarrow> real" where
  "fsub a b = fl64 (a - b)"

definition fmul :: "real \<Rightarrow> real \<Rightarrow> real" where
  "fmul a b = fl64 (a * b)"

definition fdiv :: "real \<Rightarrow> real \<Rightarrow> real" where
  "fdiv a b = fl64 (a / b)"

subsection \<open>Reading a number from a string\<close>

text \<open>
  \<open>scanDecimal\<close> reads the longest decimal literal at the head of a string (a sign,
  then \<open>Infinity\<close> or digits with an optional fraction and an optional exponent) and
  returns its double and the rest. \<open>parseFloat\<close> skips leading white space and takes
  that literal; \<open>Number\<close> of a string wants the trimmed string to be one literal, or a
  binary, octal or hexadecimal integer, and reads the empty string as zero.
\<close>

definition isDigit :: "char \<Rightarrow> bool" where
  "isDigit c = (48 \<le> (of_char c :: nat) \<and> (of_char c :: nat) \<le> 57)"

definition digitsValue :: "string \<Rightarrow> nat" where
  "digitsValue ds = foldl (\<lambda>a c. 10 * a + (of_char c - 48)) 0 ds"

definition splitSign :: "string \<Rightarrow> bool \<times> string" where
  "splitSign t =
     (case t of
        [] \<Rightarrow> (False, [])
      | c # r \<Rightarrow> if c = CHR ''-'' then (True, r)
                 else if c = CHR ''+'' then (False, r) else (False, t))"

definition scanExponent :: "string \<Rightarrow> int \<times> string" where
  "scanExponent r =
     (case r of
        [] \<Rightarrow> (0, [])
      | c # r' \<Rightarrow>
          if c = CHR ''e'' \<or> c = CHR ''E''
          then (let (neg, d) = splitSign r'; ds = takeWhile isDigit d
                in if ds = [] then (0, r)
                   else ((if neg then - int (digitsValue ds) else int (digitsValue ds)),
                         dropWhile isDigit d))
          else (0, r))"

definition scanDecimal :: "string \<Rightarrow> (jsnum \<times> string) option" where
  "scanDecimal t =
     (let (neg, u) = splitSign t
      in if take 8 u = ''Infinity'' then Some (if neg then NegInf else PosInf, drop 8 u)
         else
           let ip = takeWhile isDigit u;
               r1 = dropWhile isDigit u;
               fp = (case r1 of [] \<Rightarrow> []
                     | c # r \<Rightarrow> if c = CHR ''.'' then takeWhile isDigit r else []);
               r2 = (case r1 of [] \<Rightarrow> []
                     | c # r \<Rightarrow> if c = CHR ''.'' then dropWhile isDigit r else r1)
           in if ip = [] \<and> fp = [] then None
              else
                let (ex, r3) = scanExponent r2;
                    m = real (digitsValue (ip @ fp)) * 10 powi (ex - int (length fp))
                in Some (toDouble (if neg then - m else m), r3))"

definition parseFloat :: "string \<Rightarrow> jsnum" where
  "parseFloat s =
     (case scanDecimal (dropWhile isWhite s) of None \<Rightarrow> NaN | Some (n, _) \<Rightarrow> n)"

definition radixDigit :: "char \<Rightarrow> nat option" where
  "radixDigit c =
     (let n = (of_char c :: nat)
      in if 48 \<le> n \<and> n \<le> 57 then Some (n - 48)
         else if 97 \<le> n \<and> n \<le> 102 then Some (n - 87)
         else if 65 \<le> n \<and> n \<le> 70 then Some (n - 55)
         else None)"

fun radixValue :: "nat \<Rightarrow> nat \<Rightarrow> string \<Rightarrow> nat option" where
  "radixValue b acc [] = Some acc"
| "radixValue b acc (c # cs) =
     (case radixDigit c of
        None \<Rightarrow> None
      | Some d \<Rightarrow> if d < b then radixValue b (b * acc + d) cs else None)"

definition radixLiteral :: "string \<Rightarrow> jsnum option" where
  "radixLiteral t =
     (case t of
        c0 # c1 # ds \<Rightarrow>
          if c0 = CHR ''0'' \<and> ds \<noteq> [] \<and> c1 \<in> set ''xXoObB''
          then Some (case radixValue (if c1 \<in> set ''xX'' then 16
                                      else if c1 \<in> set ''oO'' then 8 else 2) 0 ds of
                       None \<Rightarrow> NaN
                     | Some n \<Rightarrow> toDouble (real n))
          else None
      | _ \<Rightarrow> None)"

definition stringToNumber :: "string \<Rightarrow> jsnum" where
  "stringToNumber s =
     (let t = trim s
      in if t = [] then Fin 0
         else case radixLiteral t of
                Some n \<Rightarrow> n
              | None \<Rightarrow>
                  (case scanDecimal t of
                     None \<Rightarrow> NaN
                   | Some (n, rest) \<Rightarrow> if rest = [] then n else NaN))"

subsection \<open>Conversions between values\<close>

text \<open>
  \<open>String(v)\<close>. An integer prints as its decimal digits, as the runtime prints every
  integer below \<open>10 ^ 21\<close> in magnitude; any other number prints its integer part, a
  point and the digits of its fraction, at most twenty of them, which is the runtime's
  text for the short decimal fractions of the data.
\<close>

fun fracDigits :: "nat \<Rightarrow> real \<Rightarrow> string" where
  "fracDigits 0 f = []"
| "fracDigits (Suc n) f =
     (if f = 0 then []
      else char_of (48 + nat \<lfloor>f * 10\<rfloor>) # fracDigits n (f * 10 - of_int \<lfloor>f * 10\<rfloor>))"

definition numToString :: "real \<Rightarrow> string" where
  "numToString x =
     (let a = \<bar>x\<bar>; n = nat \<lfloor>a\<rfloor>; f = a - real n
      in (if x < 0 then ''-'' else []) @ digitsOfNat n
         @ (if f = 0 then [] else CHR ''.'' # fracDigits 20 f))"

fun String :: "jsval \<Rightarrow> string" where
  "String JUndefined = ''undefined''"
| "String JNull = ''null''"
| "String (JStr s) = s"
| "String (JNum x) = numToString x"

text \<open>\<open>Number(v)\<close>: undefined is NaN, null is zero, a string is parsed.\<close>

fun Number :: "jsval \<Rightarrow> jsnum" where
  "Number JUndefined = NaN"
| "Number JNull = Fin 0"
| "Number (JStr s) = stringToNumber s"
| "Number (JNum x) = Fin x"

section \<open>The market simulation\<close>

text \<open>
  The market model computes with the reals its doubles denote. \<open>Math.pow\<close> is read
  as the real power of a positive base, the only bases the page reaches: every price
  and base price is clamped to at least one cent. A clamped operand is a finite number,
  so \<open>clamp\<close> keeps its operand where the source replaces a non-finite one by the
  lower bound.
\<close>

record MarketState =
  price :: real
  base_price :: real
  base_demand :: real
  elasticity :: real
  vcpu :: real
  fixed_cost :: real

record DerivedKPIs =
  kpi_price :: real
  demand :: real
  revenue :: real
  total_cost :: real
  var_cost_total :: real
  profit :: real
  margin_pct :: real
  unit_margin :: real

definition pow :: "real \<Rightarrow> real \<Rightarrow> real" where
  "pow x y = x powr y"

definition clamp :: "real \<Rightarrow> real \<Rightarrow> real \<Rightarrow> real" where
  "clamp v lo hi = min hi (max lo v)"

definition toNumberSafe :: "string \<Rightarrow> real" where
  "toNumberSafe v = (case parseFloat v of Fin n \<Rightarrow> n | _ \<Rightarrow> 0)"

definition deriveAll :: "MarketState \<Rightarrow> DerivedKPIs" where
  "deriveAll s =
     (let demand = base_demand s * pow (price s / base_price s) (elasticity s);
          revenue = price s * demand;
          var_cost_total = vcpu s * demand;
          total_cost = fixed_cost s + var_cost_total;
          profit = revenue - total_cost;
          margin_pct = (if 0 < revenue then profit / revenue else 0);
          unit_margin = price s - vcpu s
      in \<lparr>kpi_price = price s, demand = demand, revenue = revenue,
          total_cost = total_cost, var_cost_total = var_cost_total, profit = profit,
          margin_pct = margin_pct, unit_margin = unit_margin\<rparr>)"

definition invertElasticityForPrice :: "real \<Rightarrow> real \<Rightarrow> real \<Rightarrow> real \<Rightarrow> real" where
  "invertElasticityForPrice dem base_dem base_pr elast =
     (let ratio = clamp (dem / base_dem) (1 / 10 ^ 12) (10 ^ 12);
          inv = 1 / elast;
          pr = base_pr * pow ratio inv
      in clamp pr (1 / 100) (10 ^ 6))"

text \<open>
  \<open>bisectPrice\<close>: the bracket is widened at most ten times while the function has
  one sign at both ends; a bracket that still has one sign gives its midpoint; otherwise
  the bracket is halved \<open>iters\<close> times, or until the function is below \<open>1e-6\<close> in
  magnitude at the midpoint.
\<close>

fun expandBracket ::
  "(real \<Rightarrow> real) \<Rightarrow> nat \<Rightarrow> real \<times> real \<times> real \<times> real \<Rightarrow> real \<times> real \<times> real \<times> real" where
  "expandBracket f 0 (a, b, fa, fb) = (a, b, fa, fb)"
| "expandBracket f (Suc n) (a, b, fa, fb) =
     (if 0 < fa * fb
      then (let a' = max (1 / 100) (a / 2); b' = b * 2
            in expandBracket f n (a', b', f a', f b'))
      else (a, b, fa, fb))"

fun bisectLoop ::
  "(real \<Rightarrow> real) \<Rightarrow> nat \<Rightarrow> real \<times> real \<times> real \<times> real \<Rightarrow> real" where
  "bisectLoop f 0 (a, b, fa, fb) = clamp ((1 / 2) * (a + b)) (1 / 100) (10 ^ 6)"
| "bisectLoop f (Suc n) (a, b, fa, fb) =
     (let mid = (1 / 2) * (a + b); fm = f mid
      in if \<bar>fm\<bar> < 1 / 10 ^ 6 then clamp mid (1 / 100) (10 ^ 6)
         else if fa * fm < 0 then bisectLoop f n (a, mid, fa, fm)
         else bisectLoop f n (mid, b, fm, fb))"

definition bisectPrice :: "(real \<Rightarrow> real) \<Rightarrow> real \<Rightarrow> real \<Rightarrow> nat \<Rightarrow> real" where
  "bisectPrice f lo hi iters =
     (case expandBracket f 10 (lo, hi, f lo, f hi) of
        (a, b, fa, fb) \<Rightarrow>
          if 0 < fa * fb then clamp ((a + b) / 2) (1 / 100) (10 ^ 6)
          else bisectLoop f iters (a, b, fa, fb))"

definition solvePriceForRevenue :: "real \<Rightarrow> real \<Rightarrow> real \<Rightarrow> real \<Rightarrow> real" where
  "solvePriceForRevenue targetRevenue base_dem base_pr elast =
     bisectPrice (\<lambda>p. p * base_dem * pow (p / base_pr) elast - targetRevenue)
       (1 / 100) (base_pr * 100) 60"

definition solvePriceForProfit ::
  "real \<Rightarrow> real \<Rightarrow> real \<Rightarrow> real \<Rightarrow> real \<Rightarrow> real \<Rightarrow> real" where
  "solvePriceForProfit targetProfit base_dem base_pr elast vc fc =
     bisectPrice
       (\<lambda>p. let d = base_dem * pow (p / base_pr) elast;
                 rev = p * d;
                 tc = fc + vc * d
             in rev - tc - targetProfit)
       (1 / 100) (base_pr * 100) 60"

definition solvePriceForMargin ::
  "real \<Rightarrow> real \<Rightarrow> real \<Rightarrow> real \<Rightarrow> real \<Rightarrow> real \<Rightarrow> real" where
  "solvePriceForMargin targetMargin base_dem base_pr elast vc fc =
     (let m = clamp targetMargin (- 5) 5
      in bisectPrice
           (\<lambda>p. let d = base_dem * pow (p / base_pr) elast;
                     rev = p * d;
                     tc = fc + vc * d;
                     pf = rev - tc;
                     margin = (if 0 < rev then pf / rev else - 1)
                 in margin - m)
           (1 / 100) (base_pr * 200) 70)"

definition handleEdit :: "MarketState \<Rightarrow> string \<Rightarrow> string \<Rightarrow> MarketState" where
  "handleEdit state field rawValue =
     (let v = toNumberSafe rawValue; next = state
      in if field = ''price'' then next\<lparr>price := clamp v (1 / 100) (10 ^ 6)\<rparr>
         else if field = ''elasticity''
           then next\<lparr>elasticity := clamp v (- 5) (- (5 / 100))\<rparr>
         else if field = ''base_price''
           then next\<lparr>base_price := clamp v (1 / 100) (10 ^ 6)\<rparr>
         else if field = ''base_demand'' then next\<lparr>base_demand := clamp v 1 (10 ^ 9)\<rparr>
         else if field = ''vcpu'' then next\<lparr>vcpu := clamp v 0 (10 ^ 6)\<rparr>
         else if field = ''fixed_cost'' then next\<lparr>fixed_cost := clamp v 0 (10 ^ 12)\<rparr>
         else if field = ''demand''
           then next\<lparr>price := invertElasticityForPrice (clamp v 1 (10 ^ 12))
                                  (base_demand next) (base_price next) (elasticity next)\<rparr>
         else if field = ''revenue''
           then next\<lparr>price := solvePriceForRevenue (clamp v 0 (10 ^ 15))
                                  (base_demand next) (base_price next) (elasticity next)\<rparr>
         else if field = ''profit''
           then next\<lparr>price := solvePriceForProfit v
                                  (base_demand next) (base_price next) (elasticity next)
                                  (vcpu next) (fixed_cost next)\<rparr>
         else if field = ''margin_pct''
           then next\<lparr>price := solvePriceForMargin (clamp (v / 100) (- 10) 10)
                                  (base_demand next) (base_price next) (elasticity next)
                                  (vcpu next) (fixed_cost next)\<rparr>
         else next)"

definition initialState :: MarketState where
  "initialState =
     \<lparr>price = 50, base_price = 50, base_demand = 10000, elasticity = - (12 / 10),
      vcpu = 20, fixed_cost = 120000\<rparr>"

definition resetScenario :: "MarketState \<Rightarrow> string \<Rightarrow> MarketState" where
  "resetScenario state kind =
     (if kind = ''Baseline'' then initialState
      else if kind = ''High FC / Low VC''
        then \<lparr>price = 50, base_price = 50, base_demand = 10000, elasticity = - 1,
              vcpu = 10, fixed_cost = 400000\<rparr>
      else if kind = ''Premium Pricing''
        then \<lparr>price = 120, base_price = 80, base_demand = 7000, elasticity = - (8 / 10),
              vcpu = 25, fixed_cost = 180000\<rparr>
      else state)"

section \<open>The customer groups page\<close>

subsection \<open>The row normalizer\<close>

text \<open>
  The memo \<open>rows\<close> of the page: the model is the first of five fields that is neither
  undefined nor null, the three coordinates go through \<open>Number\<close>, and a record is
  skipped when the model is falsy or a coordinate is not finite. A record that is kept
  is copied whole, with the six normalized fields written over it. The function is
  total on the rows of a JSON file: no conversion of a string, a number or null throws.
\<close>

definition coalesce :: "jsval \<Rightarrow> jsval \<Rightarrow> jsval" where
  "coalesce a b = (if nullish a then b else a)"

definition finval :: "jsnum \<Rightarrow> real" where
  "finval n = (case n of Fin x \<Rightarrow> x | _ \<Rightarrow> 0)"





subsection \<open>The model filter\<close>

text \<open>
  \<open>allModels\<close> is the sorted list of the distinct models, first occurrences first
  before the sort; the default sort orders by the string of each element, code unit
  by code unit, and keeps undefined elements last. \<open>baseByModel\<close> keeps the rows whose
  model is among the active ones: the selected models, or all models when the selection
  is absent or empty.
\<close>

definition distinctFirst :: "'a list \<Rightarrow> 'a list" where
  "distinctFirst xs = rev (remdups (rev xs))"

definition defaultSort :: "jsval list \<Rightarrow> jsval list" where
  "defaultSort xs =
     sort_key String (filter (\<lambda>v. v \<noteq> JUndefined) xs) @ filter (\<lambda>v. v = JUndefined) xs"

definition allModels :: "row list \<Rightarrow> jsval list" where
  "allModels rs = defaultSort (distinctFirst (map (\<lambda>r. get r ''model'') rs))"

definition baseByModel :: "row list \<Rightarrow> jsval list option \<Rightarrow> row list" where
  "baseByModel rs selectedModels =
     (let active = (case selectedModels of
                      None \<Rightarrow> allModels rs
                    | Some sel \<Rightarrow> if length sel \<noteq> 0 then sel else allModels rs)
      in filter (\<lambda>r. get r ''model'' \<in> set active) rs)"

subsection \<open>The price histogram\<close>

text \<open>
  \<open>coercePrice\<close> strips every dollar sign and comma from the string of the value,
  trims it and reads it as a number; a value that is null or undefined, or whose number
  is not finite, gives NaN.
\<close>

definition coercePrice :: "jsval \<Rightarrow> jsnum" where
  "coercePrice v =
     (if v = JNull \<or> v = JUndefined then NaN
      else let n = stringToNumber
                     (trim (filter (\<lambda>c. c \<noteq> CHR ''$'' \<and> c \<noteq> CHR '','') (String v)))
           in if isFinite n then n else NaN)"

definition BUCKET_MIN :: real where "BUCKET_MIN = 30000"
definition BUCKET_STEP :: real where "BUCKET_STEP = 5000"
definition OVER_MIN :: real where "OVER_MIN = 110000"

text \<open>
  The labels. \<open>Math.round\<close> rounds half up; \<open>toFixed(1)\<close> prints the nearest
  multiple of a tenth, the larger of two that are as near, after the sign. The label
  of a bucket shows its upper edge lowered by 100; the difference and the division by
  1000 are those of doubles.
\<close>

definition mathRound :: "real \<Rightarrow> int" where
  "mathRound x = \<lfloor>x + 1 / 2\<rfloor>"

definition intToString :: "int \<Rightarrow> string" where
  "intToString i = (if i < 0 then ''-'' @ digitsOfNat (nat (- i)) else digitsOfNat (nat i))"

definition toFixed1 :: "real \<Rightarrow> string" where
  "toFixed1 x =
     (let n = nat \<lfloor>\<bar>x\<bar> * 10 + 1 / 2\<rfloor>
      in (if x < 0 then ''-'' else []) @ digitsOfNat (n div 10) @ ''.''
         @ digitsOfNat (n mod 10))"

definition fmtK :: "real \<Rightarrow> string" where
  "fmtK n = ''$'' @ intToString (mathRound (fdiv n 1000)) @ ''k''"

definition fmtKDec :: "real \<Rightarrow> string" where
  "fmtKDec n = ''$'' @ toFixed1 (fdiv n 1000) @ ''k''"

definition bucketLabel :: "jsnum \<Rightarrow> jsnum \<Rightarrow> string" where
  "bucketLabel lo hi =
     (if lo = NegInf then ''Under $30k''
      else if hi = PosInf then ''$110k+''
      else let displayHigh = fsub (finval hi) 100
           in fmtK (finval lo) @ '' to '' @ fmtKDec displayHigh)"

record item =
  label :: string
  count :: nat
  pct :: real

record bucket = item +
  low :: jsnum
  high :: jsnum

definition mkBucket :: "jsnum \<Rightarrow> jsnum \<Rightarrow> bucket" where
  "mkBucket lo hi = \<lparr>label = bucketLabel lo hi, count = 0, pct = 0, low = lo, high = hi\<rparr>"

text \<open>
  \<open>getFixedBucketRanges\<close>, with the count and the percentage of
  \<open>buildBucketsForRows\<close> already at zero: the open bucket below \<open>BUCKET_MIN\<close>, the
  buckets of the loop, which steps from \<open>BUCKET_MIN\<close> by \<open>BUCKET_STEP\<close> while it is
  below \<open>OVER_MIN\<close>, and the open bucket from \<open>OVER_MIN\<close>. The edges are whole
  numbers far below \<open>2 ^ 53\<close>, whose sums a double holds without rounding
  (\<open>step_exact\<close> below), so the loop adds them as reals.
\<close>

function stepRanges :: "real \<Rightarrow> bucket list" where
  "stepRanges lo =
     (if lo < OVER_MIN
      then mkBucket (Fin lo) (Fin (lo + BUCKET_STEP)) # stepRanges (lo + BUCKET_STEP)
      else [])"
  by pat_completeness auto
termination
proof (relation "measure (\<lambda>lo. nat \<lceil>OVER_MIN - lo\<rceil>)")
  show "wf (measure (\<lambda>lo. nat \<lceil>OVER_MIN - lo\<rceil>))" by simp
next
  fix lo :: real
  assume "lo < OVER_MIN"
  then have "0 < \<lceil>OVER_MIN - lo\<rceil>" by simp
  moreover have "\<lceil>OVER_MIN - (lo + BUCKET_STEP)\<rceil> < \<lceil>OVER_MIN - lo\<rceil>"
    unfolding BUCKET_STEP_def by linarith
  ultimately show "(lo + BUCKET_STEP, lo) \<in> measure (\<lambda>lo. nat \<lceil>OVER_MIN - lo\<rceil>)"
    by simp
qed

declare stepRanges.simps [simp del]

definition getFixedBucketRanges :: "bucket list" where
  "getFixedBucketRanges =
     mkBucket NegInf (Fin BUCKET_MIN) # stepRanges BUCKET_MIN
       @ [mkBucket (Fin OVER_MIN) PosInf]"

text \<open>
  The index of the bucket of a price, as the loop of \<open>buildBucketsForRows\<close> computes
  it among \<open>n\<close> buckets, in the arithmetic of doubles: the floor of the rounded
  quotient of the rounded difference, clamped between the first and the last step
  bucket. Reading the bucket at an index that the list does not have would throw; the
  model returns \<open>None\<close> there.
\<close>

definition bucketIndex :: "nat \<Rightarrow> real \<Rightarrow> real" where
  "bucketIndex n v =
     (if v < BUCKET_MIN then 0
      else if OVER_MIN \<le> v then real n - 1
      else let stepIdx = real_of_int \<lfloor>fdiv (fsub v BUCKET_MIN) BUCKET_STEP\<rfloor>
           in fadd 1 (max 0 (min stepIdx
                (fsub (fdiv (fsub OVER_MIN BUCKET_MIN) BUCKET_STEP) 1))))"

definition bumpCount :: "bucket list \<Rightarrow> real \<Rightarrow> bucket list option" where
  "bumpCount bs idx =
     (if 0 \<le> idx
      then (let i = nat \<lfloor>idx\<rfloor>
            in if idx = real i \<and> i < length bs
               then Some (bs[i := (bs ! i)\<lparr>count := count (bs ! i) + 1\<rparr>])
               else None)
      else Some bs)"

fun countLoop :: "bucket list \<Rightarrow> real list \<Rightarrow> bucket list option" where
  "countLoop bs [] = Some bs"
| "countLoop bs (v # vs) =
     (case bumpCount bs (bucketIndex (length bs) v) of
        None \<Rightarrow> None
      | Some bs' \<Rightarrow> countLoop bs' vs)"

definition finiteOpt :: "jsnum \<Rightarrow> real option" where
  "finiteOpt n = (case n of Fin x \<Rightarrow> Some x | _ \<Rightarrow> None)"

definition priceVals :: "row list \<Rightarrow> real list" where
  "priceVals rs = List.map_filter (\<lambda>r. finiteOpt (coercePrice (get r ''FIN_PRICE_UNEDITED''))) rs"

record histogram =
  data :: "item list"
  totalValid :: nat

definition buildBucketsForRows :: "row list \<Rightarrow> histogram option" where
  "buildBucketsForRows rs =
     (let buckets = getFixedBucketRanges;
          vals = priceVals rs;
          totalValid = length vals
      in if totalValid = 0 then Some \<lparr>data = [], totalValid = 0\<rparr>
         else case countLoop buckets vals of
                None \<Rightarrow> None
              | Some bs \<Rightarrow>
                  Some \<lparr>data = map (\<lambda>b. \<lparr>label = label b, count = count b,
                                            pct = (if 0 < totalValid
                                                   then fmul (fdiv (real (count b)) (real totalValid)) 100
                                                   else 0)\<rparr>) bs,
                        totalValid = totalValid\<rparr>)"

subsection \<open>Attitude scores\<close>

text \<open>
  The lookups map a field to its code map, and a code map a raw value to its label.
  \<open>getAttRaw\<close> takes the value of the field, or of the first of its five aliases,
  that is neither undefined nor null nor blank. \<open>resolveMappedLabel\<close> looks the raw
  value up as it is, then as its string, then, if that string is a finite number, as
  the number and as the string of the number, and falls back on the string.
\<close>

type_synonym codeMap = "jsval \<rightharpoonup> string"

type_synonym lookups = "string \<rightharpoonup> codeMap"

definition AGREE_TOP3 :: "string list" where
  "AGREE_TOP3 = [''strongly agree'', ''agree'', ''somewhat agree'']"

definition AGREE_TOP2 :: "string list" where
  "AGREE_TOP2 = [''strongly agree'', ''somewhat agree'']"

definition present :: "jsval \<Rightarrow> bool" where
  "present v = (v \<noteq> JUndefined \<and> v \<noteq> JNull \<and> trim (String v) \<noteq> [])"

definition getAttRaw :: "row \<Rightarrow> string \<Rightarrow> jsval" where
  "getAttRaw r varName =
     (let v = get r varName
      in if present v then v
         else case filter present
                     (map (\<lambda>suffix. get r (varName @ suffix))
                        [''_LABEL'', ''_TXT'', ''_TEXT'', ''_DESC'', ''_LAB'']) of
                [] \<Rightarrow> JNull
              | va # _ \<Rightarrow> va)"

definition normalizeLabel :: "jsval \<Rightarrow> string" where
  "normalizeLabel s = collapseWhite (toLowerCase (trim (String (coalesce s (JStr [])))))"

definition resolveMappedLabel :: "row \<Rightarrow> string \<Rightarrow> lookups \<Rightarrow> jsval" where
  "resolveMappedLabel r varName demoLookups =
     (let raw = getAttRaw r varName
      in if raw = JNull \<or> raw = JUndefined then JNull
         else
           let cm = (case demoLookups varName of None \<Rightarrow> Map.empty | Some m \<Rightarrow> m);
               asStr = String raw;
               asNum = stringToNumber asStr
           in case cm raw of
                Some l \<Rightarrow> JStr l
              | None \<Rightarrow>
                  (case cm (JStr asStr) of
                     Some l \<Rightarrow> JStr l
                   | None \<Rightarrow>
                       (if isFinite asNum
                        then (case cm (JNum (finval asNum)) of
                                Some l \<Rightarrow> JStr l
                              | None \<Rightarrow>
                                  (case cm (JStr (String (JNum (finval asNum)))) of
                                     Some l \<Rightarrow> JStr l
                                   | None \<Rightarrow> JStr asStr))
                        else JStr asStr)))"

datatype policy = LOYAL_ONLY | TOP2 | TOP3

text \<open>
  The test \<open>/^STATE_/i\<close>: two code units match without regard to case when their
  upper-case forms are equal, and only a letter of the basic alphabet has a basic
  letter as its upper-case form.
\<close>

definition canonicalize :: "char \<Rightarrow> char" where
  "canonicalize c =
     (let n = (of_char c :: nat)
      in if (97 \<le> n \<and> n \<le> 122) \<or> (224 \<le> n \<and> n \<le> 254 \<and> n \<noteq> 247)
         then char_of (n - 32) else c)"

definition startsWithState :: "string \<Rightarrow> bool" where
  "startsWithState varName = (map canonicalize (take 6 varName) = ''STATE_'')"

definition agreePolicyFor :: "string \<Rightarrow> policy" where
  "agreePolicyFor varName =
     (if varName = ''OL_MODEL_GRP'' then LOYAL_ONLY
      else if startsWithState varName then TOP2
      else TOP3)"

definition isTopNAgree :: "jsval \<Rightarrow> policy \<Rightarrow> bool" where
  "isTopNAgree lab pol =
     (let s = normalizeLabel lab
      in if pol = LOYAL_ONLY then s = ''loyal''
         else if pol = TOP2 then s \<in> set AGREE_TOP2
         else s \<in> set AGREE_TOP3)"

text \<open>
  The loop of \<open>percentAgreeMappedPolicy\<close> carries the three counters; a row whose
  label is falsy is missing, any other row is valid, and agrees or not by its policy.
  The option \<open>includeMissingInDenom\<close> is true when it is not given.
\<close>

fun agreeLoop ::
  "string \<Rightarrow> lookups \<Rightarrow> policy \<Rightarrow> row list \<Rightarrow> nat \<times> nat \<times> nat \<Rightarrow> nat \<times> nat \<times> nat" where
  "agreeLoop varName demoLookups pol [] (agree, valid, missing) = (agree, valid, missing)"
| "agreeLoop varName demoLookups pol (r # rs) (agree, valid, missing) =
     (let lab = resolveMappedLabel r varName demoLookups
      in if \<not> truthy lab then agreeLoop varName demoLookups pol rs (agree, valid, missing + 1)
         else agreeLoop varName demoLookups pol rs
                ((if isTopNAgree lab pol then agree + 1 else agree), valid + 1, missing))"

definition percentAgreeMappedPolicy ::
  "row list \<Rightarrow> string \<Rightarrow> lookups \<Rightarrow> bool option \<Rightarrow> jsnum" where
  "percentAgreeMappedPolicy rs varName demoLookups opt =
     (let includeMissingInDenom = (case opt of None \<Rightarrow> True | Some b \<Rightarrow> b);
          pol = agreePolicyFor varName
      in case agreeLoop varName demoLookups pol rs (0, 0, 0) of
           (agree, valid, missing) \<Rightarrow>
             let denom = (if includeMissingInDenom then valid + missing else valid)
             in if 0 < denom then Fin (fmul (fdiv (real agree) (real denom)) 100) else NaN)"

text \<open>A string in which no two neighbours are both white space.\<close>

fun noWhiteRun :: "string \<Rightarrow> bool" where
  "noWhiteRun [] = True"
| "noWhiteRun [c] = True"
| "noWhiteRun (c # d # cs) = (\<not> (isWhite c \<and> isWhite d) \<and> noWhiteRun (d # cs))"

subsection \<open>The field summaries\<close>

text \<open>
  \<open>coerceNumber\<close> trims the string of the value, takes the commas out and reads a
  number. \<open>numString\<close> is \<open>String\<close> of the result of a conversion, and \<open>lookupNum\<close>
  the entry of a code map at such a result: the keys of a code map are strings and
  finite numbers, so it has no entry at NaN or at an infinity.
\<close>

definition coerceNumber :: "jsval \<Rightarrow> jsnum" where
  "coerceNumber v =
     (if v = JNull \<or> v = JUndefined then NaN
      else let n = stringToNumber (filter (\<lambda>c. c \<noteq> CHR '','') (trim (String v)))
           in if isFinite n then n else NaN)"

definition numString :: "jsnum \<Rightarrow> string" where
  "numString n =
     (case n of Fin x \<Rightarrow> numToString x | NaN \<Rightarrow> ''NaN'' | PosInf \<Rightarrow> ''Infinity''
      | NegInf \<Rightarrow> ''-Infinity'')"

definition lookupNum :: "codeMap \<Rightarrow> jsnum \<Rightarrow> string option" where
  "lookupNum cm n = (case n of Fin x \<Rightarrow> cm (JNum x) | _ \<Rightarrow> None)"

text \<open>
  The label of a raw value that is there: its entry in the code map as it is, as its
  string or as its number, else the entry of its trimmed string read as a number, or of
  the string of that number, else the trimmed string itself.
\<close>

definition resolveLabel :: "codeMap \<Rightarrow> jsval \<Rightarrow> string" where
  "resolveLabel cm rawVal =
     (let lab = trim (String rawVal)
      in case cm rawVal of
           Some l \<Rightarrow> l
         | None \<Rightarrow>
             (case cm (JStr (String rawVal)) of
                Some l \<Rightarrow> l
              | None \<Rightarrow>
                  (case lookupNum cm (Number rawVal) of
                     Some l \<Rightarrow> l
                   | None \<Rightarrow>
                       (let asNum = stringToNumber lab
                        in case (if isFinite asNum then lookupNum cm asNum else None) of
                             Some l \<Rightarrow> l
                           | None \<Rightarrow>
                               (case cm (JStr (numString asNum)) of
                                  Some l \<Rightarrow> l
                                | None \<Rightarrow> lab)))))"

text \<open>
  The counting loop keeps the labels in the order in which they first appear, as the
  map of the source does, with the number of valid and of missing rows.
\<close>

fun labelLoop ::
  "codeMap \<Rightarrow> string \<Rightarrow> row list \<Rightarrow> (string \<times> nat) list \<times> nat \<times> nat
     \<Rightarrow> (string \<times> nat) list \<times> nat \<times> nat" where
  "labelLoop cm field [] (counts, validCount, missingCount) = (counts, validCount, missingCount)"
| "labelLoop cm field (r # rs) (counts, validCount, missingCount) =
     (let rawVal = get r field
      in if \<not> present rawVal then labelLoop cm field rs (counts, validCount, missingCount + 1)
         else let lab = resolveLabel cm rawVal
              in labelLoop cm field rs
                   (AList.update lab (case map_of counts lab of None \<Rightarrow> 1 | Some c \<Rightarrow> c + 1)
                      counts,
                    validCount + 1, missingCount))"

datatype summarySection =
  Numeric string jsnum nat nat
  | Categorical string "item list" nat

text \<open>
  The categorical section of a field. \<open>buildItems\<close> makes one item for each label
  with its share of all rows, sorted by falling count, equal counts in the order of the
  map, and then the item \<open>Unknown\<close> for the missing rows, if there are any.
  \<open>absorbDrift\<close> adds the percentages up as the loop of the source does and, when
  the sum differs from 100 by more than 0.1, adds the difference to the last item.
  There is no section when there is no row.
\<close>

definition buildItems :: "(string \<times> nat) list \<Rightarrow> nat \<Rightarrow> nat \<Rightarrow> item list" where
  "buildItems counts missingCount fieldTotal =
     (let sorted = sort_key (\<lambda>it. - int (count it))
                     (map (\<lambda>(l, c). \<lparr>label = l, count = c,
                              pct = fmul (fdiv (real c) (real fieldTotal)) 100\<rparr>) counts)
      in if 0 < missingCount
         then sorted @ [\<lparr>label = ''Unknown'', count = missingCount,
                 pct = fmul (fdiv (real missingCount) (real fieldTotal)) 100\<rparr>]
         else sorted)"

definition sumPct :: "item list \<Rightarrow> real" where
  "sumPct its = foldl (\<lambda>a b. fadd a (pct b)) 0 its"

definition absorbDrift :: "item list \<Rightarrow> item list" where
  "absorbDrift its =
     (if fl64 (1 / 10) < \<bar>fsub (sumPct its) 100\<bar> \<and> 0 < length its
      then (let diff = fsub 100 (sumPct its)
            in butlast its @ [(last its)\<lparr>pct := fadd (pct (last its)) diff\<rparr>])
      else its)"

definition categoricalSection :: "row list \<Rightarrow> string \<Rightarrow> codeMap \<Rightarrow> summarySection option" where
  "categoricalSection srcAll field cm =
     (case labelLoop cm field srcAll ([], 0, 0) of
        (counts, validCount, missingCount) \<Rightarrow>
          if validCount + missingCount = 0 then None
          else let fieldTotal = validCount + missingCount
               in Some (Categorical field
                    (absorbDrift (buildItems counts missingCount fieldTotal)) fieldTotal))"

text \<open>
  The numeric section of a financing field: the mean of the values that are finite
  numbers, with how many there are and how many are not. The text that shows the mean
  is left out.
\<close>

fun numericLoop :: "string \<Rightarrow> row list \<Rightarrow> real \<times> real \<times> nat \<times> nat \<Rightarrow> real \<times> real \<times> nat \<times> nat" where
  "numericLoop field [] (sm, wsum, nValid, nMissing) = (sm, wsum, nValid, nMissing)"
| "numericLoop field (r # rs) (sm, wsum, nValid, nMissing) =
     (case coerceNumber (get r field) of
        Fin num \<Rightarrow> numericLoop field rs (fadd sm num, fadd wsum 1, nValid + 1, nMissing)
      | _ \<Rightarrow> numericLoop field rs (sm, wsum, nValid, nMissing + 1))"

definition summarizeField ::
  "bool \<Rightarrow> row list \<Rightarrow> string \<Rightarrow> lookups \<Rightarrow> summarySection option" where
  "summarizeField isFinancingNumeric srcAll field demoLookups =
     (let cm = (case demoLookups field of None \<Rightarrow> Map.empty | Some m \<Rightarrow> m)
      in case (if isFinancingNumeric then numericLoop field srcAll (0, 0, 0, 0)
               else (0, 0, 0, 0)) of
           (sm, wsum, nValid, nMissing) \<Rightarrow>
             if isFinancingNumeric \<and> 0 < nValid
             then Some (Numeric field (if 0 < wsum then Fin (fdiv sm wsum) else NaN)
                          nValid nMissing)
             else categoricalSection srcAll field cm)"

definition firstPct :: "summarySection \<Rightarrow> real" where
  "firstPct s = (case s of Categorical _ (it # _) _ \<Rightarrow> pct it | _ \<Rightarrow> 0)"

definition isNumeric :: "summarySection \<Rightarrow> bool" where
  "isNumeric s = (case s of Numeric _ _ _ _ \<Rightarrow> True | _ \<Rightarrow> False)"

text \<open>
  \<open>demoSummary\<close> over the fields of the selected group: the sections that are there,
  numeric ones first, the others by the falling percentage of their first item.
\<close>

definition demoSummary :: "string \<Rightarrow> string list \<Rightarrow> row list \<Rightarrow> lookups \<Rightarrow> summarySection list" where
  "demoSummary selectedFieldGroup fieldList srcAll demoLookups =
     (let sections = List.map_filter
            (\<lambda>field. summarizeField
               (selectedFieldGroup = ''Financing'' \<and> field \<notin> set [''C1_PL'', ''FIN_CREDIT''])
               srcAll field demoLookups) fieldList
      in filter isNumeric sections
         @ sort_key (\<lambda>s. - firstPct s) (filter (\<lambda>s. \<not> isNumeric s) sections))"

text \<open>
  The boundaries read as an interval: a bucket holds the prices from its lower edge,
  included, to its upper edge, excluded. \<open>bucketPos\<close> is the position of the bucket
  that holds a price.
\<close>

definition inRange :: "bucket \<Rightarrow> real \<Rightarrow> bool" where
  "inRange b v =
     ((case low b of NegInf \<Rightarrow> True | Fin l \<Rightarrow> l \<le> v | _ \<Rightarrow> False)
      \<and> (case high b of PosInf \<Rightarrow> True | Fin h \<Rightarrow> v < h | _ \<Rightarrow> False))"

definition bucketPos :: "real \<Rightarrow> nat" where
  "bucketPos v = (if v < 30000 then 0 else if 110000 \<le> v then 17
                  else 1 + nat \<lfloor>(v - 30000) / 5000\<rfloor>)"



section \<open>Properties of the runtime\<close>

text \<open>
  The rules by which a closed term of the model is evaluated: the rounding to a double,
  the reading of a number from a string, and the labels of the price buckets.
\<close>

lemmas num_eval = fl64_def toDouble_def binexp_def expUp.simps expDown.simps
  roundHalfEven_def Let_def

lemmas str_eval = stringToNumber_def trim_def isWhite_def radixLiteral_def scanDecimal_def
  splitSign_def scanExponent_def isDigit_def digitsValue_def

subsection \<open>Rows and strings\<close>




lemma isFinite_Fin: "isFinite n \<Longrightarrow> n = Fin (finval n)"
  by (cases n) (simp_all add: isFinite_def finval_def)



lemma of_char_lt: "(of_char c :: nat) < 256"
  by simp

lemma char_of_eq_iff:
  assumes "n < 256"
  shows "char_of (n::nat) = c \<longleftrightarrow> n = of_char c"
proof
  assume "char_of n = c"
  then have "of_char (char_of n) = (of_char c :: nat)" by simp
  then show "n = of_char c" using assms by (simp add: of_char_of)
next
  assume "n = of_char c"
  then show "char_of n = c" by simp
qed

lemma isWhite_toLowerChar: "isWhite (toLowerChar c) = isWhite c"
proof -
  have "(of_char c :: nat) < 256" by (rule of_char_lt)
  then show ?thesis
    by (auto simp: toLowerChar_def isWhite_def Let_def of_char_of)
qed

lemma toLowerChar_not_upper:
  "\<not> (65 \<le> (of_char (toLowerChar c) :: nat) \<and> (of_char (toLowerChar c) :: nat) \<le> 90)"
proof -
  have "(of_char c :: nat) < 256" by (rule of_char_lt)
  then show ?thesis
    by (auto simp: toLowerChar_def Let_def of_char_of)
qed

lemma trim_ends:
  "trim s = [] \<or> (\<not> isWhite (hd (trim s)) \<and> \<not> isWhite (last (trim s)))"
proof (cases "trim s = []")
  case True
  then show ?thesis by simp
next
  case False
  define t where "t = dropWhile isWhite s"
  define u where "u = dropWhile isWhite (rev t)"
  have tr: "trim s = rev u" by (simp add: trim_def t_def u_def)
  with False have u: "u \<noteq> []" by simp
  then have hu: "\<not> isWhite (hd u)" unfolding u_def by (rule hd_dropWhile)
  have t: "t \<noteq> []" using u unfolding u_def by auto
  then have ht: "\<not> isWhite (hd t)" unfolding t_def by (rule hd_dropWhile)
  obtain w where w: "rev t = w @ u"
    unfolding u_def by (metis takeWhile_dropWhile_id)
  have "last u = last (rev t)" using u w by simp
  also have "\<dots> = hd t" using t by (simp add: last_rev)
  finally have lu: "\<not> isWhite (last u)" using ht by simp
  have "hd (trim s) = last u" "last (trim s) = hd u"
    using u by (simp_all add: tr hd_rev last_rev)
  with hu lu show ?thesis by simp
qed

lemma collapseFrom_set: "set (collapseFrom b cs) \<subseteq> insert (CHR '' '') {c \<in> set cs. \<not> isWhite c}"
  by (induction cs arbitrary: b) auto

lemma collapseFrom_hd:
  "cs \<noteq> [] \<Longrightarrow> \<not> isWhite (hd cs) \<Longrightarrow> collapseFrom b cs \<noteq> [] \<and> hd (collapseFrom b cs) = hd cs"
  by (cases cs) simp_all

lemma collapseFrom_last:
  "cs \<noteq> [] \<Longrightarrow> \<not> isWhite (last cs) \<Longrightarrow>
     collapseFrom b cs \<noteq> [] \<and> last (collapseFrom b cs) = last cs"
proof (induction cs arbitrary: b)
  case Nil
  then show ?case by simp
next
  case (Cons c cs)
  show ?case
  proof (cases "cs = []")
    case True
    with Cons.prems show ?thesis by simp
  next
    case False
    with Cons.prems have "\<not> isWhite (last cs)" by simp
    with Cons.IH False have "\<And>b. collapseFrom b cs \<noteq> [] \<and> last (collapseFrom b cs) = last cs"
      by blast
    with False show ?thesis by simp
  qed
qed

lemma white_space: "isWhite (CHR '' '')"
  by (simp add: isWhite_def)

lemma collapseFrom_noWhiteRun:
  "noWhiteRun (collapseFrom b cs)
   \<and> (b \<longrightarrow> collapseFrom b cs = [] \<or> \<not> isWhite (hd (collapseFrom b cs)))"
proof (induction cs arbitrary: b)
  case Nil
  then show ?case by simp
next
  case (Cons c cs)
  have IHt: "noWhiteRun (collapseFrom True cs)"
    "collapseFrom True cs = [] \<or> \<not> isWhite (hd (collapseFrom True cs))"
    using Cons.IH [of True] by simp_all
  have IHf: "noWhiteRun (collapseFrom False cs)" using Cons.IH [of False] by simp
  show ?case
  proof (cases "isWhite c")
    case True
    show ?thesis
    proof (cases b)
      case True
      with \<open>isWhite c\<close> IHt show ?thesis by simp
    next
      case False
      with \<open>isWhite c\<close> IHt show ?thesis
        by (cases "collapseFrom True cs") simp_all
    qed
  next
    case False
    then show ?thesis using IHf
      by (cases "collapseFrom False cs") simp_all
  qed
qed

subsection \<open>Rounding to a double\<close>

text \<open>
  The binary exponent brackets a positive number between two powers of two. Rounding
  keeps the order of the nonnegative numbers, and moves a number in the normal range by
  at most the fraction \<open>2 powi (- 53)\<close> of itself.
\<close>

lemma two_powi_pos: "0 < (2::real) powi n"
  by (simp add: zero_less_power_int)

lemma two_powi_Suc: "(2::real) powi (n + 1) = 2 * 2 powi n"
  by (simp add: power_int_add_1)

lemma expUp_bounds:
  "1 \<le> x \<Longrightarrow> 0 \<le> expUp x \<and> 2 powi (expUp x) \<le> x \<and> x < 2 powi (expUp x + 1)"
proof (induction x rule: expUp.induct)
  case (1 x)
  show ?case
  proof (cases "2 \<le> x")
    case True
    then have "1 \<le> x / 2" by simp
    with 1 True have IH: "0 \<le> expUp (x / 2) \<and> 2 powi (expUp (x / 2)) \<le> x / 2
        \<and> x / 2 < 2 powi (expUp (x / 2) + 1)" by simp
    have e: "expUp x = expUp (x / 2) + 1"
      by (subst expUp.simps) (simp add: True)
    have p1: "(2::real) powi (expUp (x / 2) + 1) = 2 * 2 powi (expUp (x / 2))"
      by (rule two_powi_Suc)
    have p2: "(2::real) powi (expUp (x / 2) + 1 + 1) = 4 * 2 powi (expUp (x / 2))"
      using two_powi_Suc [of "expUp (x / 2) + 1"] p1 by simp
    show ?thesis
      using IH unfolding e p1 p2 by linarith
  next
    case False
    have e: "expUp x = 0" by (subst expUp.simps) (simp add: False)
    show ?thesis unfolding e using False 1 by simp
  qed
qed

lemma expDown_bounds:
  "0 < x \<Longrightarrow> x < 1 \<Longrightarrow> 2 powi (expDown x) \<le> x \<and> x < 2 powi (expDown x + 1)"
proof (induction x rule: expDown.induct)
  case (1 x)
  have e: "expDown x = expDown (2 * x) - 1"
    by (subst expDown.simps) (simp add: 1)
  show ?case
  proof (cases "2 * x < 1")
    case True
    with 1 have IH: "2 powi (expDown (2 * x)) \<le> 2 * x \<and> 2 * x < 2 powi (expDown (2 * x) + 1)"
      by simp
    have p1: "(2::real) powi (expDown (2 * x)) = 2 * 2 powi (expDown (2 * x) - 1)"
      using two_powi_Suc [of "expDown (2 * x) - 1"] by simp
    have p2: "(2::real) powi (expDown (2 * x) + 1) = 4 * 2 powi (expDown (2 * x) - 1)"
      using two_powi_Suc [of "expDown (2 * x)"] p1 by simp
    have p3: "expDown (2 * x) - 1 + 1 = expDown (2 * x)" by simp
    show ?thesis
      using IH unfolding e p3 p2 p1 by linarith
  next
    case False
    have z: "expDown (2 * x) = 0" by (subst expDown.simps) (simp add: False)
    show ?thesis unfolding e z using False 1 by (simp add: power_int_minus)
  qed
qed

lemma binexp_bounds:
  assumes "0 < x"
  shows "2 powi (binexp x) \<le> x \<and> x < 2 powi (binexp x + 1)"
  using assms expUp_bounds [of x] expDown_bounds [of x]
  by (cases "1 \<le> x") (simp_all add: binexp_def)

lemma binexp_mono:
  assumes "0 < x" and "x \<le> y"
  shows "binexp x \<le> binexp y"
proof (rule ccontr)
  assume "\<not> binexp x \<le> binexp y"
  then have "binexp y + 1 \<le> binexp x" by simp
  then have "(2::real) powi (binexp y + 1) \<le> 2 powi (binexp x)"
    by (intro power_int_increasing) simp_all
  moreover have "y < 2 powi (binexp y + 1)" "2 powi (binexp x) \<le> x"
    using binexp_bounds [of x] binexp_bounds [of y] assms by simp_all
  ultimately show False using assms by linarith
qed

lemma roundHalfEven_cases:
  "roundHalfEven r = \<lfloor>r\<rfloor> \<or> roundHalfEven r = \<lfloor>r\<rfloor> + 1"
  by (simp add: roundHalfEven_def Let_def)

lemma roundHalfEven_of_int: "roundHalfEven (of_int n) = n"
  by (simp add: roundHalfEven_def Let_def)

lemma roundHalfEven_mono:
  assumes "r \<le> s"
  shows "roundHalfEven r \<le> roundHalfEven s"
proof (cases "\<lfloor>r\<rfloor> < \<lfloor>s\<rfloor>")
  case True
  have "roundHalfEven r \<le> \<lfloor>r\<rfloor> + 1" using roundHalfEven_cases [of r] by linarith
  moreover have "\<lfloor>s\<rfloor> \<le> roundHalfEven s" using roundHalfEven_cases [of s] by linarith
  ultimately show ?thesis using True by linarith
next
  case False
  moreover have "\<lfloor>r\<rfloor> \<le> \<lfloor>s\<rfloor>" using assms by (rule floor_mono)
  ultimately have f: "\<lfloor>s\<rfloor> = \<lfloor>r\<rfloor>" by linarith
  have d: "r - of_int \<lfloor>r\<rfloor> \<le> s - of_int \<lfloor>r\<rfloor>" using assms by simp
  show ?thesis
    using d by (auto simp: roundHalfEven_def Let_def f)
qed

lemma fl64_pos_eq:
  assumes "0 < x"
  shows "fl64 x = of_int (roundHalfEven (x / 2 powi (max (binexp x) (- 1022) - 52)))
                    * 2 powi (max (binexp x) (- 1022) - 52)"
  using assms by (simp add: fl64_def Let_def)

lemma roundHalfEven_nonneg: "0 \<le> r \<Longrightarrow> 0 \<le> roundHalfEven r"
  using roundHalfEven_mono [of 0 r] roundHalfEven_of_int [of 0] by simp

lemma fl64_nonneg:
  assumes "0 \<le> x"
  shows "0 \<le> fl64 x"
proof (cases "x = 0")
  case True
  then show ?thesis by (simp add: fl64_def)
next
  case False
  with assms have p: "0 < x" by simp
  have "0 \<le> x / 2 powi (max (binexp x) (- 1022) - 52)"
    using p two_powi_pos [of "max (binexp x) (- 1022) - 52"] by simp
  then have "0 \<le> roundHalfEven (x / 2 powi (max (binexp x) (- 1022) - 52))"
    by (rule roundHalfEven_nonneg)
  then show ?thesis
    unfolding fl64_pos_eq [OF p]
    using two_powi_pos [of "max (binexp x) (- 1022) - 52"] by simp
qed

lemma two_powi_diff: "(2::real) powi a / 2 powi b = 2 powi (a - b)"
  by (simp add: power_int_diff)

lemma fl64_mono_pos:
  assumes "0 < x" and "x \<le> y"
  shows "fl64 x \<le> fl64 y"
proof -
  define ex where "ex = max (binexp x) (- 1022)"
  define ey where "ey = max (binexp y) (- 1022)"
  define qx where "qx = (2::real) powi (ex - 52)"
  define qy where "qy = (2::real) powi (ey - 52)"
  have y: "0 < y" using assms by linarith
  have fx: "fl64 x = of_int (roundHalfEven (x / qx)) * qx"
    unfolding qx_def ex_def by (rule fl64_pos_eq [OF assms(1)])
  have fy: "fl64 y = of_int (roundHalfEven (y / qy)) * qy"
    unfolding qy_def ey_def by (rule fl64_pos_eq [OF y])
  have qxp: "0 < qx" and qyp: "0 < qy"
    unfolding qx_def qy_def by (rule two_powi_pos)+
  have le: "ex \<le> ey"
    unfolding ex_def ey_def using binexp_mono [OF assms] by linarith
  show ?thesis
  proof (cases "ex = ey")
    case True
    then have q: "qy = qx" by (simp add: qx_def qy_def)
    have "x / qx \<le> y / qx" using assms(2) qxp by (simp add: divide_right_mono)
    then have "roundHalfEven (x / qx) \<le> roundHalfEven (y / qx)" by (rule roundHalfEven_mono)
    then have "real_of_int (roundHalfEven (x / qx)) \<le> real_of_int (roundHalfEven (y / qx))"
      by simp
    then show ?thesis
      unfolding fx fy q using qxp by (simp add: mult_right_mono)
  next
    case False
    with le have lt: "ex < ey" by simp
    then have eyb: "ey = binexp y" unfolding ey_def ex_def by linarith
    have bx: "binexp x \<le> ex" unfolding ex_def by simp
    \<comment> \<open>the larger operand rounds to at least the bottom of its binade\<close>
    have "2 powi ey \<le> y" unfolding eyb using binexp_bounds [OF y] by simp
    then have "2 powi ey / qy \<le> y / qy" using qyp by (simp add: divide_right_mono)
    moreover have "(2::real) powi ey / qy = of_int (2 ^ 52)"
      unfolding qy_def two_powi_diff by simp
    ultimately have "roundHalfEven (of_int (2 ^ 52)) \<le> roundHalfEven (y / qy)"
      by (intro roundHalfEven_mono) simp
    then have "real_of_int (2 ^ 52) \<le> real_of_int (roundHalfEven (y / qy))"
      unfolding roundHalfEven_of_int by (simp only: of_int_le_iff)
    then have "2 ^ 52 \<le> real_of_int (roundHalfEven (y / qy))" by simp
    then have "2 ^ 52 * qy \<le> fl64 y"
      unfolding fy using qyp by (simp add: mult_right_mono)
    moreover have "2 ^ 52 * qy = 2 powi ey"
    proof -
      have "(2::real) powi ey = 2 powi (52 + (ey - 52))"
        by (rule arg_cong [where f = "\<lambda>n. 2 powi n"]) simp
      also have "\<dots> = 2 powi 52 * 2 powi (ey - 52)" by (rule power_int_add) simp
      finally show ?thesis unfolding qy_def by simp
    qed
    ultimately have lower: "2 powi ey \<le> fl64 y" by simp
    \<comment> \<open>the smaller operand rounds to at most the top of its binade\<close>
    have "x < 2 powi (binexp x + 1)" using binexp_bounds [OF assms(1)] by simp
    also have "\<dots> \<le> 2 powi (ex + 1)" using bx by (intro power_int_increasing) simp_all
    finally have "x \<le> 2 powi (ex + 1)" by simp
    then have "x / qx \<le> 2 powi (ex + 1) / qx" using qxp by (simp add: divide_right_mono)
    moreover have "(2::real) powi (ex + 1) / qx = of_int (2 ^ 53)"
      unfolding qx_def two_powi_diff by simp
    ultimately have "roundHalfEven (x / qx) \<le> roundHalfEven (of_int (2 ^ 53))"
      by (intro roundHalfEven_mono) simp
    then have "real_of_int (roundHalfEven (x / qx)) \<le> real_of_int (2 ^ 53)"
      unfolding roundHalfEven_of_int by (simp only: of_int_le_iff)
    then have "real_of_int (roundHalfEven (x / qx)) \<le> 2 ^ 53" by simp
    then have "fl64 x \<le> 2 ^ 53 * qx"
      unfolding fx using qxp by (simp add: mult_right_mono)
    moreover have "2 ^ 53 * qx = 2 powi (ex + 1)"
    proof -
      have "(2::real) powi (ex + 1) = 2 powi (53 + (ex - 52))"
        by (rule arg_cong [where f = "\<lambda>n. 2 powi n"]) simp
      also have "\<dots> = 2 powi 53 * 2 powi (ex - 52)" by (rule power_int_add) simp
      finally show ?thesis unfolding qx_def by simp
    qed
    moreover have "(2::real) powi (ex + 1) \<le> 2 powi ey"
      using lt by (intro power_int_increasing) simp_all
    ultimately show ?thesis using lower by linarith
  qed
qed

lemma fl64_mono:
  assumes "0 \<le> x" and "x \<le> y"
  shows "fl64 x \<le> fl64 y"
proof (cases "x = 0")
  case True
  then show ?thesis using fl64_nonneg [of y] assms by (simp add: fl64_def)
next
  case False
  then show ?thesis using assms fl64_mono_pos [of x y] by simp
qed

lemma fl64_1: "fl64 1 = 1"
  by (simp add: num_eval)

lemma fl64_100: "fl64 100 = 100"
  by (simp add: num_eval)

lemma percent_range:
  assumes "a \<le> d" and "0 < (d::nat)"
  shows "0 \<le> fmul (fdiv (real a) (real d)) 100 \<and> fmul (fdiv (real a) (real d)) 100 \<le> 100"
proof -
  have q: "0 \<le> real a / real d" "real a / real d \<le> 1" using assms by simp_all
  have f0: "0 \<le> fdiv (real a) (real d)" unfolding fdiv_def using q(1) by (rule fl64_nonneg)
  have f1: "fdiv (real a) (real d) \<le> 1"
    unfolding fdiv_def using fl64_mono [OF q] by (simp add: fl64_1)
  have m: "0 \<le> fdiv (real a) (real d) * 100" "fdiv (real a) (real d) * 100 \<le> 100"
    using f0 f1 by simp_all
  show ?thesis
    unfolding fmul_def using fl64_nonneg [OF m(1)] fl64_mono [OF m] by (simp add: fl64_100)
qed

lemma roundHalfEven_error: "\<bar>real_of_int (roundHalfEven r) - r\<bar> \<le> 1 / 2"
proof -
  have "real_of_int \<lfloor>r\<rfloor> \<le> r" "r < real_of_int \<lfloor>r\<rfloor> + 1" by linarith+
  then show ?thesis
    by (auto simp: roundHalfEven_def Let_def)
qed

lemma fl64_rel_error:
  assumes "2 powi (- 1022) \<le> x"
  shows "\<bar>fl64 x - x\<bar> \<le> x * 2 powi (- 53)"
proof -
  have xp: "0 < x" using assms two_powi_pos [of "- 1022"] by linarith
  define e where "e = binexp x"
  define q where "q = (2::real) powi (e - 52)"
  have b: "2 powi e \<le> x" "x < 2 powi (e + 1)"
    unfolding e_def using binexp_bounds [OF xp] by simp_all
  have "e \<ge> - 1022"
  proof (rule ccontr)
    assume "\<not> - 1022 \<le> e"
    then have "e + 1 \<le> - 1022" by simp
    then have "(2::real) powi (e + 1) \<le> 2 powi (- 1022)"
      by (intro power_int_increasing) simp_all
    with b(2) assms show False by linarith
  qed
  then have m: "max (binexp x) (- 1022) = e" by (simp add: e_def)
  have qp: "0 < q" unfolding q_def by (rule two_powi_pos)
  have f: "fl64 x = real_of_int (roundHalfEven (x / q)) * q"
    unfolding q_def using fl64_pos_eq [OF xp] by (simp add: m)
  have "fl64 x - x = (real_of_int (roundHalfEven (x / q)) - x / q) * q"
    using qp by (simp add: f field_simps)
  then have "\<bar>fl64 x - x\<bar> = \<bar>real_of_int (roundHalfEven (x / q)) - x / q\<bar> * q"
    using qp by (simp add: abs_mult)
  also have "\<dots> \<le> (1 / 2) * q"
    using roundHalfEven_error [of "x / q"] qp by (intro mult_right_mono) simp_all
  also have "(1 / 2) * q = 2 powi e * 2 powi (- 53)"
  proof -
    have "(2::real) powi (e - 52) = 2 powi (e + (- 53) + 1)"
      by (rule arg_cong [where f = "\<lambda>n. 2 powi n"]) simp
    also have "\<dots> = 2 * 2 powi (e + (- 53))" by (rule two_powi_Suc)
    also have "(2::real) powi (e + (- 53)) = 2 powi e * 2 powi (- 53)"
      by (rule power_int_add) simp
    finally show ?thesis unfolding q_def by simp
  qed
  also have "\<dots> \<le> x * 2 powi (- 53)"
    using b(1) two_powi_pos [of "- 53"] by (intro mult_right_mono) simp_all
  finally show ?thesis .
qed

text \<open>
  A double is an integer below \<open>2 ^ 53\<close> in magnitude times a power of two that is at
  least \<open>2 powi (- 1074)\<close>. Rounding leaves such a number as it is, every rounded number
  is one, and so rounding twice is rounding once.
\<close>

lemma two_powi_less_cancel:
  assumes "(2::real) powi a < 2 powi b"
  shows "a < b"
proof (rule ccontr)
  assume "\<not> a < b"
  then have "b \<le> a" by simp
  then have "(2::real) powi b \<le> 2 powi a" by (intro power_int_increasing) simp_all
  with assms show False by linarith
qed

lemma fl64_exact:
  assumes "0 \<le> m" and "m < 2 ^ 53" and "- 1074 \<le> k"
  shows "fl64 (of_int m * 2 powi k) = of_int m * 2 powi k"
proof (cases "m = 0")
  case True
  then show ?thesis by (simp add: fl64_def)
next
  case False
  define x where "x = real_of_int m * 2 powi k"
  have mp: "0 < m" using assms(1) False by simp
  have xp: "0 < x" unfolding x_def using mp two_powi_pos [of k] by simp
  define e where "e = max (binexp x) (- 1022)"
  have ek: "e - 52 \<le> k"
  proof (cases "e = - 1022")
    case True
    then show ?thesis using assms(3) by simp
  next
    case False
    then have eb: "e = binexp x" unfolding e_def by linarith
    have "2 powi e \<le> x" unfolding eb using binexp_bounds [OF xp] by simp
    also have "x < 2 ^ 53 * 2 powi k"
      unfolding x_def using assms(2) two_powi_pos [of k]
      by (intro mult_strict_right_mono) (simp_all add: of_int_less_numeral_power_cancel_iff)
    also have "2 ^ 53 * 2 powi k = (2::real) powi (53 + k)"
      using power_int_add [of "2::real" 53 k] by simp
    finally have "e < 53 + k" by (rule two_powi_less_cancel)
    then show ?thesis by simp
  qed
  define j where "j = nat (k - (e - 52))"
  have kj: "k = (e - 52) + int j" using ek by (simp add: j_def)
  have q: "(2::real) powi k = 2 powi (e - 52) * 2 ^ j"
    unfolding kj using power_int_add [of "2::real" "e - 52" "int j"] by simp
  have "x / 2 powi (e - 52) = real_of_int (m * 2 ^ j)"
    unfolding x_def q using two_powi_pos [of "e - 52"] by simp
  then have "roundHalfEven (x / 2 powi (e - 52)) = m * 2 ^ j"
    by (simp only: roundHalfEven_of_int)
  then have "fl64 x = real_of_int (m * 2 ^ j) * 2 powi (e - 52)"
    using fl64_pos_eq [OF xp] by (simp add: e_def)
  also have "\<dots> = x" unfolding x_def q by simp
  finally show ?thesis unfolding x_def .
qed

lemma fl64_repr:
  assumes "0 < x"
  shows "\<exists>m. fl64 x = of_int m * 2 powi (max (binexp x) (- 1022) - 52) \<and> 0 \<le> m \<and> m \<le> 2 ^ 53"
proof -
  define e where "e = max (binexp x) (- 1022)"
  define q where "q = (2::real) powi (e - 52)"
  have qp: "0 < q" unfolding q_def by (rule two_powi_pos)
  have "x < 2 powi (binexp x + 1)" using binexp_bounds [OF assms] by simp
  also have "\<dots> \<le> 2 powi (e + 1)" unfolding e_def by (intro power_int_increasing) simp_all
  finally have "x / q \<le> 2 powi (e + 1) / q" using qp by (simp add: divide_right_mono)
  moreover have "(2::real) powi (e + 1) / q = of_int (2 ^ 53)"
    unfolding q_def two_powi_diff by simp
  ultimately have "roundHalfEven (x / q) \<le> roundHalfEven (of_int (2 ^ 53))"
    by (intro roundHalfEven_mono) simp
  then have hi: "roundHalfEven (x / q) \<le> 2 ^ 53" unfolding roundHalfEven_of_int .
  have "0 \<le> x / q" using assms qp by simp
  then have lo: "0 \<le> roundHalfEven (x / q)" by (rule roundHalfEven_nonneg)
  have "fl64 x = of_int (roundHalfEven (x / q)) * q"
    unfolding q_def e_def by (rule fl64_pos_eq [OF assms])
  with lo hi show ?thesis unfolding q_def e_def by blast
qed

lemma fl64_idem_pos:
  assumes "0 < x"
  shows "fl64 (fl64 x) = fl64 x"
proof -
  define k where "k = max (binexp x) (- 1022) - 52"
  from fl64_repr [OF assms] obtain m where
    f: "fl64 x = of_int m * 2 powi k" and m: "0 \<le> m" "m \<le> 2 ^ 53"
    unfolding k_def by blast
  have kl: "- 1074 \<le> k" unfolding k_def by simp
  show ?thesis
  proof (cases "m = 2 ^ 53")
    case False
    with m have "m < 2 ^ 53" by simp
    then show ?thesis unfolding f using m(1) kl by (intro fl64_exact)
  next
    case True
    have "real_of_int m * 2 powi k = real_of_int 1 * 2 powi (53 + k)"
      unfolding True using power_int_add [of "2::real" 53 k] by simp
    moreover have "fl64 (real_of_int 1 * 2 powi (53 + k)) = real_of_int 1 * 2 powi (53 + k)"
      using kl by (intro fl64_exact) simp_all
    ultimately show ?thesis unfolding f by simp
  qed
qed

lemma roundHalfEven_minus: "roundHalfEven (- r) = - roundHalfEven r"
proof (cases "r = of_int \<lfloor>r\<rfloor>")
  case True
  then obtain n where r: "r = of_int n" ..
  have "roundHalfEven (- real_of_int n) = - n" using roundHalfEven_of_int [of "- n"] by simp
  then show ?thesis unfolding r by (simp only: roundHalfEven_of_int)
next
  case False
  then have lt: "of_int \<lfloor>r\<rfloor> < r" by linarith
  have "\<lfloor>- r\<rfloor> = - \<lfloor>r\<rfloor> - 1" using lt by (intro floor_unique) linarith+
  then show ?thesis using lt by (simp add: roundHalfEven_def Let_def)
qed

lemma fl64_minus: "fl64 (- x) = - fl64 x"
  by (simp add: fl64_def Let_def roundHalfEven_minus)

lemma fl64_idem: "fl64 (fl64 x) = fl64 x"
proof -
  consider "0 < x" | "x = 0" | "0 < - x" by linarith
  then show ?thesis
  proof cases
    case 1
    then show ?thesis by (rule fl64_idem_pos)
  next
    case 2
    then show ?thesis by (simp add: fl64_def)
  next
    case 3
    then have "fl64 (fl64 (- x)) = fl64 (- x)" by (rule fl64_idem_pos)
    then show ?thesis by (simp add: fl64_minus)
  qed
qed

lemma fl64_int:
  assumes "0 \<le> n" and "n < 2 ^ 53"
  shows "fl64 (of_int n) = of_int n"
  using fl64_exact [OF assms, of 0] by simp

text \<open>Every finite number that is read from a string is a double.\<close>

lemma toDouble_Fin: "toDouble x = Fin p \<Longrightarrow> p = fl64 x"
  by (simp add: toDouble_def Let_def split: if_splits)

lemma scanDecimal_double:
  assumes "scanDecimal t = Some (Fin p, r)"
  shows "fl64 p = p"
proof -
  from assms obtain y where "toDouble y = Fin p"
    by (auto simp: scanDecimal_def Let_def split: prod.splits if_splits)
  then show ?thesis using toDouble_Fin [of y p] by (simp add: fl64_idem)
qed

lemma radixLiteral_double:
  assumes "radixLiteral t = Some (Fin p)"
  shows "fl64 p = p"
proof -
  from assms obtain y where "toDouble y = Fin p"
    by (auto simp: radixLiteral_def split: list.splits if_splits option.splits)
  then show ?thesis using toDouble_Fin [of y p] by (simp add: fl64_idem)
qed

lemma stringToNumber_double:
  assumes "stringToNumber s = Fin p"
  shows "fl64 p = p"
proof (cases "trim s = []")
  case True
  then have "p = 0" using assms by (simp add: stringToNumber_def)
  then show ?thesis by (simp add: fl64_def)
next
  case False
  show ?thesis
  proof (cases "radixLiteral (trim s)")
    case (Some n)
    then have "radixLiteral (trim s) = Some (Fin p)"
      using assms False by (simp add: stringToNumber_def)
    then show ?thesis by (rule radixLiteral_double)
  next
    case None
    then obtain r where "scanDecimal (trim s) = Some (Fin p, r)"
      using assms False
      by (auto simp: stringToNumber_def split: option.splits prod.splits if_splits)
    then show ?thesis by (rule scanDecimal_double)
  qed
qed

text \<open>The error of a percentage, and of a sum of terms with a relative error.\<close>

lemma pct_error:
  assumes "0 < c" and "c \<le> T" and "T < 2 ^ 53"
  shows "\<bar>fmul (fdiv (real c) (real T)) 100 - 100 * (real c / real T)\<bar>
     \<le> (2 * 2 powi (- 53) + 2 powi (- 53) * 2 powi (- 53)) * (100 * (real c / real T))"
proof -
  define u where "u = (2::real) powi (- 53)"
  define x where "x = real c / real T"
  define y where "y = fl64 x"
  define z where "z = fl64 (y * 100)"
  have up: "0 < u" "u \<le> 1 / 2" unfolding u_def by simp_all
  have Tp: "0 < real T" using assms by simp
  have "real T < real (2 ^ 53)" using assms(3) by (simp only: of_nat_less_iff)
  then have "real T \<le> 2 ^ 53" by simp
  moreover have "1 \<le> real c" using assms(1) by simp
  ultimately have "1 / 2 ^ 53 \<le> real c / real T"
    using Tp by (intro frac_le) simp_all
  then have xl: "2 powi (- 53) \<le> x" unfolding x_def by simp
  have small: "(2::real) powi (- 1022) \<le> 2 powi (- 54)"
    by (intro power_int_increasing) simp_all
  have h: "(2::real) powi (- 54) \<le> 2 powi (- 53)"
    by (intro power_int_increasing) simp_all
  have xn: "2 powi (- 1022) \<le> x" using xl small h by linarith
  have xp: "0 < x" using xl two_powi_pos [of "- 53"] by linarith
  have ey: "\<bar>y - x\<bar> \<le> x * u" unfolding y_def u_def by (rule fl64_rel_error [OF xn])
  have ylo: "x * (1 / 2) \<le> y"
  proof -
    have "x * u \<le> x * (1 / 2)" using up xp by (intro mult_left_mono) simp_all
    with ey show ?thesis by linarith
  qed
  have yhi: "y \<le> x + x * u" using ey by linarith
  have "2 powi (- 54) = (2::real) powi (- 53) * (1 / 2)" by simp
  also have "\<dots> \<le> x * (1 / 2)" using xl by simp
  finally have "2 powi (- 54) \<le> y" using ylo by linarith
  then have yn: "2 powi (- 1022) \<le> y * 100"
    using small two_powi_pos [of "- 54"] by linarith
  have yp: "0 < y" using ylo xp by linarith
  have ez: "\<bar>z - y * 100\<bar> \<le> y * 100 * u"
    unfolding z_def u_def by (rule fl64_rel_error [OF yn])
  have "y * 100 * u \<le> (x + x * u) * 100 * u"
    using yhi up by (intro mult_right_mono) simp_all
  with ez have "\<bar>z - y * 100\<bar> \<le> (x + x * u) * 100 * u" by linarith
  moreover have "\<bar>y * 100 - 100 * x\<bar> \<le> 100 * (x * u)" using ey by linarith
  ultimately have "\<bar>z - 100 * x\<bar> \<le> (x + x * u) * 100 * u + 100 * (x * u)" by linarith
  also have "\<dots> = (2 * u + u * u) * (100 * x)" by (simp add: algebra_simps)
  finally show ?thesis
    unfolding z_def y_def x_def u_def fmul_def fdiv_def .
qed

lemma sum_list_error:
  assumes "\<And>x. x \<in> set xs \<Longrightarrow> \<bar>f x - g x\<bar> \<le> k * g x"
  shows "\<bar>sum_list (map f xs) - sum_list (map g xs)\<bar> \<le> (k::real) * sum_list (map g xs)"
  using assms
proof (induction xs)
  case Nil
  then show ?case by simp
next
  case (Cons a xs)
  have "\<bar>f a - g a\<bar> \<le> k * g a" using Cons.prems by simp
  moreover have "\<bar>sum_list (map f xs) - sum_list (map g xs)\<bar> \<le> k * sum_list (map g xs)"
    using Cons by simp
  ultimately show ?case by (simp add: algebra_simps)
qed

section \<open>Properties of the market simulation\<close>

lemma handleEdit_elasticity:
  "elasticity (handleEdit s field raw) =
     (if field = ''elasticity'' then clamp (toNumberSafe raw) (- 5) (- (5 / 100))
      else elasticity s)"
  by (simp add: handleEdit_def Let_def)

lemma handleEdit_demand:
  "handleEdit s ''demand'' raw =
     s\<lparr>price := invertElasticityForPrice (clamp (toNumberSafe raw) 1 (10 ^ 12))
                    (base_demand s) (base_price s) (elasticity s)\<rparr>"
  by (simp add: handleEdit_def Let_def)

lemma handleEdit_revenue:
  "handleEdit s ''revenue'' raw =
     s\<lparr>price := solvePriceForRevenue (clamp (toNumberSafe raw) 0 (10 ^ 15))
                    (base_demand s) (base_price s) (elasticity s)\<rparr>"
  by (simp add: handleEdit_def Let_def)

lemma handleEdit_profit:
  "handleEdit s ''profit'' raw =
     s\<lparr>price := solvePriceForProfit (toNumberSafe raw)
                    (base_demand s) (base_price s) (elasticity s) (vcpu s) (fixed_cost s)\<rparr>"
  by (simp add: handleEdit_def Let_def)

lemma handleEdit_margin_pct:
  "handleEdit s ''margin_pct'' raw =
     s\<lparr>price := solvePriceForMargin (clamp (toNumberSafe raw / 100) (- 10) 10)
                    (base_demand s) (base_price s) (elasticity s) (vcpu s) (fixed_cost s)\<rparr>"
  by (simp add: handleEdit_def Let_def)

lemma resetScenario_elasticity:
  "elasticity s < 0 \<Longrightarrow> elasticity (resetScenario s kind) < 0"
  by (simp add: resetScenario_def initialState_def)

text \<open>
  C2. \<open>deriveAll\<close> computes the demand as the base demand times the price ratio to the
  power of the elasticity, the revenue as price times demand, the total cost as fixed
  cost plus unit cost times demand, the profit as revenue minus total cost, the margin
  as profit over revenue when the revenue is positive and zero otherwise, and the unit
  margin as price minus unit cost, for every state with a positive price and base price;
  and at the state of price 50, base price 50, base demand 10000, elasticity -1.2, unit
  cost 20 and fixed cost 120000 it gives demand 10000, revenue 500000, total cost
  320000, profit 180000 and margin 0.36.
\<close>

theorem deriveAll_formulas:
  assumes "0 < price s" and "0 < base_price s"
  shows "demand (deriveAll s) = base_demand s * (price s / base_price s) powr elasticity s
    \<and> revenue (deriveAll s) = price s * demand (deriveAll s)
    \<and> total_cost (deriveAll s) = fixed_cost s + vcpu s * demand (deriveAll s)
    \<and> profit (deriveAll s) = revenue (deriveAll s) - total_cost (deriveAll s)
    \<and> margin_pct (deriveAll s) =
        (if 0 < revenue (deriveAll s) then profit (deriveAll s) / revenue (deriveAll s) else 0)
    \<and> unit_margin (deriveAll s) = price s - vcpu s
    \<and> deriveAll \<lparr>price = 50, base_price = 50, base_demand = 10000, elasticity = - (12 / 10),
          vcpu = 20, fixed_cost = 120000\<rparr>
        = \<lparr>kpi_price = 50, demand = 10000, revenue = 500000, total_cost = 320000,
           var_cost_total = 200000, profit = 180000, margin_pct = 36 / 100,
           unit_margin = 30\<rparr>"
  by (simp add: deriveAll_def pow_def Let_def)

theorem deriveAll_formulas_witness:
  "demand (deriveAll initialState) = 10000 \<and> revenue (deriveAll initialState) = 500000
   \<and> total_cost (deriveAll initialState) = 320000 \<and> profit (deriveAll initialState) = 180000
   \<and> margin_pct (deriveAll initialState) = 36 / 100
   \<and> unit_margin (deriveAll initialState) = 30"
proof -
  have p: "0 < price initialState" and b: "0 < base_price initialState"
    by (simp_all add: initialState_def)
  have d: "demand (deriveAll initialState) = 10000"
    using deriveAll_formulas [OF p b] by (simp add: initialState_def)
  show ?thesis
    using deriveAll_formulas [OF p b] d by (simp add: initialState_def)
qed




text \<open>
  C9. An edit of a derived figure (demand, revenue, profit or margin) through
  \<open>handleEdit\<close> changes the price of the state and nothing else: base price, base
  demand, elasticity, unit cost and fixed cost stay as they were, and the new price is
  the closed-form inverse for the demand and the root found by bisection for the other
  three. The elasticity of the first state is negative, and it stays negative through
  every edit of any field and every reset.
\<close>

theorem handleEdit_derived_changes_price_only:
  "(field \<in> {''demand'', ''revenue'', ''profit'', ''margin_pct''} \<longrightarrow>
      handleEdit s field raw = s\<lparr>price := price (handleEdit s field raw)\<rparr>)
   \<and> price (handleEdit s ''demand'' raw) =
       invertElasticityForPrice (clamp (toNumberSafe raw) 1 (10 ^ 12))
         (base_demand s) (base_price s) (elasticity s)
   \<and> price (handleEdit s ''revenue'' raw) =
       bisectPrice (\<lambda>p. p * base_demand s * pow (p / base_price s) (elasticity s)
                         - clamp (toNumberSafe raw) 0 (10 ^ 15))
         (1 / 100) (base_price s * 100) 60
   \<and> price (handleEdit s ''profit'' raw) =
       solvePriceForProfit (toNumberSafe raw)
         (base_demand s) (base_price s) (elasticity s) (vcpu s) (fixed_cost s)
   \<and> price (handleEdit s ''margin_pct'' raw) =
       solvePriceForMargin (clamp (toNumberSafe raw / 100) (- 10) 10)
         (base_demand s) (base_price s) (elasticity s) (vcpu s) (fixed_cost s)
   \<and> elasticity initialState < 0
   \<and> (elasticity s < 0 \<longrightarrow>
        elasticity (handleEdit s field raw) < 0 \<and> elasticity (resetScenario s kind) < 0)"
proof -
  have frame: "handleEdit s field raw = s\<lparr>price := price (handleEdit s field raw)\<rparr>"
    if "field \<in> {''demand'', ''revenue'', ''profit'', ''margin_pct''}"
  proof -
    from that consider "field = ''demand''" | "field = ''revenue''" | "field = ''profit''"
      | "field = ''margin_pct''" by blast
    then show ?thesis
      by cases
        (simp_all only: handleEdit_demand handleEdit_revenue handleEdit_profit
           handleEdit_margin_pct, simp_all)
  qed
  have neg: "elasticity (handleEdit s field raw) < 0" if "elasticity s < 0"
    using that by (simp add: handleEdit_elasticity clamp_def min_less_iff_disj)
  show ?thesis
    using frame neg resetScenario_elasticity [of s kind]
    by (simp add: handleEdit_demand handleEdit_revenue handleEdit_profit
        handleEdit_margin_pct solvePriceForRevenue_def initialState_def)
qed

theorem handleEdit_derived_changes_price_only_witness:
  "handleEdit initialState ''profit'' ''200000''
     = initialState\<lparr>price := price (handleEdit initialState ''profit'' ''200000'')\<rparr>
   \<and> base_price (handleEdit initialState ''profit'' ''200000'') = 50
   \<and> elasticity (handleEdit initialState ''profit'' ''200000'') < 0"
proof -
  note t = handleEdit_derived_changes_price_only
    [of "''profit''" initialState "''200000''" "''Baseline''"]
  have e: "elasticity initialState < 0" by (simp add: initialState_def)
  have m: "''profit'' \<in> {''demand'', ''revenue'', ''profit'', ''margin_pct''}" by simp
  have f: "handleEdit initialState ''profit'' ''200000''
     = initialState\<lparr>price := price (handleEdit initialState ''profit'' ''200000'')\<rparr>"
    by (rule mp [OF conjunct1 [OF t] m])
  have n: "elasticity (handleEdit initialState ''profit'' ''200000'') < 0"
    using t e by blast
  have "base_price (handleEdit initialState ''profit'' ''200000'')
      = base_price (initialState\<lparr>price := price (handleEdit initialState ''profit'' ''200000'')\<rparr>)"
    by (subst f) (rule refl)
  then have "base_price (handleEdit initialState ''profit'' ''200000'') = 50"
    by (simp add: initialState_def)
  with f n show ?thesis by blast
qed

section \<open>Properties of the customer groups page\<close>

subsection \<open>The row normalizer\<close>





subsection \<open>The model filter\<close>

lemma set_defaultSort: "set (defaultSort xs) = set xs"
  by (auto simp: defaultSort_def)

lemma set_allModels: "set (allModels rs) = (\<lambda>r. get r ''model'') ` set rs"
  by (simp add: allModels_def set_defaultSort distinctFirst_def)

text \<open>
  C7. With an empty list of active models, and with none at all, the model filter
  returns every row, in order: the empty selection is no filter.
\<close>

theorem baseByModel_empty_selection:
  "baseByModel rs (Some []) = rs \<and> baseByModel rs None = rs"
  by (simp add: baseByModel_def set_allModels)

theorem baseByModel_empty_selection_witness:
  "baseByModel [[(''model'', JStr ''A'')], [(''model'', JStr ''B'')]] (Some [])
     = [[(''model'', JStr ''A'')], [(''model'', JStr ''B'')]]"
  using baseByModel_empty_selection [of "[[(''model'', JStr ''A'')], [(''model'', JStr ''B'')]]"]
  by (rule conjunct1)

subsection \<open>The price histogram\<close>

lemma ranges: "getFixedBucketRanges =
  [mkBucket NegInf (Fin 30000), mkBucket (Fin 30000) (Fin 35000), mkBucket (Fin 35000) (Fin 40000),
   mkBucket (Fin 40000) (Fin 45000), mkBucket (Fin 45000) (Fin 50000), mkBucket (Fin 50000) (Fin 55000),
   mkBucket (Fin 55000) (Fin 60000), mkBucket (Fin 60000) (Fin 65000), mkBucket (Fin 65000) (Fin 70000),
   mkBucket (Fin 70000) (Fin 75000), mkBucket (Fin 75000) (Fin 80000), mkBucket (Fin 80000) (Fin 85000),
   mkBucket (Fin 85000) (Fin 90000), mkBucket (Fin 90000) (Fin 95000), mkBucket (Fin 95000) (Fin 100000),
   mkBucket (Fin 100000) (Fin 105000), mkBucket (Fin 105000) (Fin 110000), mkBucket (Fin 110000) PosInf]"
  by (simp add: getFixedBucketRanges_def stepRanges.simps BUCKET_MIN_def BUCKET_STEP_def OVER_MIN_def)

lemma length_ranges: "length getFixedBucketRanges = 18"
  by (simp add: ranges)

lemma below_18:
  "i < 18 \<Longrightarrow> i \<in> {0, 1, 2, 3, 4, 5, 6, 7, 8, 9, 10, 11, 12, 13, 14, 15, 16, 17 :: nat}"
  by simp arith

lemma nth_ranges:
  assumes "i < 18"
  shows "getFixedBucketRanges ! i =
     (if i = 0 then mkBucket NegInf (Fin 30000)
      else if i = 17 then mkBucket (Fin 110000) PosInf
      else mkBucket (Fin (25000 + 5000 * real i)) (Fin (30000 + 5000 * real i)))"
  using below_18 [OF assms] by (elim insertE emptyE) (simp_all add: ranges)

lemma labels: "map label getFixedBucketRanges =
  [''Under $30k'', ''$30k to $34.9k'', ''$35k to $39.9k'', ''$40k to $44.9k'',
   ''$45k to $49.9k'', ''$50k to $54.9k'', ''$55k to $59.9k'', ''$60k to $64.9k'',
   ''$65k to $69.9k'', ''$70k to $74.9k'', ''$75k to $79.9k'', ''$80k to $84.9k'',
   ''$85k to $89.9k'', ''$90k to $94.9k'', ''$95k to $99.9k'', ''$100k to $104.9k'',
   ''$105k to $109.9k'', ''$110k+'']"
  apply (simp add: ranges mkBucket_def bucketLabel_def fmtK_def fmtKDec_def fsub_def fdiv_def
      finval_def)
  apply (simp add: num_eval)
  apply (simp add: toFixed1_def intToString_def mathRound_def digitsOfNat.simps char_of_def
      bit_Suc_0_iff)
  done

lemma nth_label:
  assumes "i < 18"
  shows "label (getFixedBucketRanges ! i) =
  [''Under $30k'', ''$30k to $34.9k'', ''$35k to $39.9k'', ''$40k to $44.9k'',
   ''$45k to $49.9k'', ''$50k to $54.9k'', ''$55k to $59.9k'', ''$60k to $64.9k'',
   ''$65k to $69.9k'', ''$70k to $74.9k'', ''$75k to $79.9k'', ''$80k to $84.9k'',
   ''$85k to $89.9k'', ''$90k to $94.9k'', ''$95k to $99.9k'', ''$100k to $104.9k'',
   ''$105k to $109.9k'', ''$110k+''] ! i"
proof -
  have "label (getFixedBucketRanges ! i) = map label getFixedBucketRanges ! i"
    using assms by (simp add: length_ranges)
  then show ?thesis unfolding labels .
qed

lemma step_exact:
  assumes "i < 16"
  shows "fadd (30000 + 5000 * real i) BUCKET_STEP = 30000 + 5000 * real i + BUCKET_STEP"
proof -
  have "fl64 (real_of_int (35000 + 5000 * int i)) = real_of_int (35000 + 5000 * int i)"
    using assms by (intro fl64_int) simp_all
  then show ?thesis by (simp add: fadd_def BUCKET_STEP_def add.commute)
qed

lemma bucketPos_less: "bucketPos v < 18"
proof -
  have "nat \<lfloor>(v - 30000) / 5000\<rfloor> < 16" if "v < 110000"
  proof -
    have "(v - 30000) / 5000 < 16" using that by simp
    then have "\<lfloor>(v - 30000) / 5000\<rfloor> < 16" by (simp add: floor_less_iff)
    then show ?thesis by arith
  qed
  then show ?thesis by (auto simp: bucketPos_def)
qed

text \<open>
  A price is a double, and between \<open>BUCKET_MIN\<close> and \<open>OVER_MIN\<close> its binary exponent is
  14, 15 or 16. Taking \<open>BUCKET_MIN\<close> from it is exact, and the rounding of the quotient by
  \<open>BUCKET_STEP\<close> does not reach the next integer: the index that the loop computes is
  the position of the bucket that holds the price.
\<close>

lemma coercePrice_double:
  assumes "coercePrice x = Fin p"
  shows "fl64 p = p"
proof -
  from assms have "\<exists>s. stringToNumber s = Fin p"
    by (auto simp: coercePrice_def Let_def split: if_splits)
  then show ?thesis using stringToNumber_double by blast
qed

lemma binexp_price:
  assumes "30000 \<le> v" and "v < 110000"
  shows "14 \<le> binexp v \<and> binexp v \<le> 16"
proof -
  have vp: "0 < v" using assms by simp
  note b = binexp_bounds [OF vp]
  have "(2::real) powi 14 < 2 powi (binexp v + 1)" using b assms(1) by simp
  then have "14 < binexp v + 1" by (rule two_powi_less_cancel)
  moreover have "(2::real) powi (binexp v) < 2 powi 17" using b assms(2) by simp
  then have "binexp v < 17" by (rule two_powi_less_cancel)
  ultimately show ?thesis by simp
qed

lemma price_mantissa:
  assumes d: "fl64 v = v" and lo: "30000 \<le> v" and hi: "v < 110000"
  shows "\<exists>m j. v = real_of_int m / 2 ^ j \<and> 36 \<le> j \<and> j \<le> 38 \<and> m \<le> 2 ^ 53
            \<and> v < 2 ^ 53 / 2 ^ j"
proof -
  have vp: "0 < v" using lo by simp
  define e where "e = binexp v"
  have e: "14 \<le> e" "e \<le> 16" using binexp_price [OF lo hi] by (simp_all add: e_def)
  have me: "max (binexp v) (- 1022) = e" using e by (simp add: e_def)
  from fl64_repr [OF vp] obtain m where
    f: "v = real_of_int m * 2 powi (e - 52)" and m: "m \<le> 2 ^ 53"
    unfolding me d by blast
  define j where "j = nat (52 - e)"
  have j: "36 \<le> j" "j \<le> 38" using e by (simp_all add: j_def)
  have "e - 52 = - int j" using e by (simp add: j_def)
  then have q: "(2::real) powi (e - 52) = 1 / 2 ^ j"
    by (simp add: power_int_minus divide_simps)
  have "e + 1 = 53 + (e - 52)" by simp
  then have "(2::real) powi (e + 1) = 2 powi (53 + (e - 52))" by (rule arg_cong)
  also have "\<dots> = 2 powi 53 * 2 powi (e - 52)" by (rule power_int_add) simp
  finally have "(2::real) powi (e + 1) = 2 ^ 53 * 2 powi (e - 52)" by simp
  then have "v < 2 ^ 53 / 2 ^ j"
    using binexp_bounds [OF vp] unfolding e_def [symmetric] q by simp
  with f m j show ?thesis unfolding q by (intro exI [of _ m] exI [of _ j]) simp
qed

lemma price_minus_exact:
  assumes d: "fl64 v = v" and lo: "30000 \<le> v" and hi: "v < 110000"
  shows "fsub v 30000 = v - 30000"
proof -
  from price_mantissa [OF assms] obtain m j where
    v: "v = real_of_int m / 2 ^ j" and j: "36 \<le> j" "j \<le> 38" and m: "m \<le> 2 ^ 53"
    by blast
  define n where "n = m - 30000 * 2 ^ j"
  have x: "v - 30000 = real_of_int n * 2 powi (- int j)"
    unfolding v n_def by (simp add: power_int_minus divide_simps)
  have "0 \<le> real_of_int n * 2 powi (- int j)" using lo unfolding x [symmetric] by simp
  then have "0 \<le> real_of_int n"
    using two_powi_pos [of "- int j"] by (simp add: zero_le_mult_iff)
  then have n0: "0 \<le> n" by simp
  have "(0::int) < 30000 * 2 ^ j" by simp
  then have n1: "n < 2 ^ 53" using m unfolding n_def by linarith
  have "fl64 (real_of_int n * 2 powi (- int j)) = real_of_int n * 2 powi (- int j)"
    using n0 n1 j by (intro fl64_exact) simp_all
  then show ?thesis unfolding fsub_def x .
qed

lemma price_step_floor:
  assumes d: "fl64 v = v" and lo: "30000 \<le> v" and hi: "v < 110000"
  shows "\<lfloor>fdiv (fsub v 30000) 5000\<rfloor> = \<lfloor>(v - 30000) / 5000\<rfloor>"
proof -
  from price_mantissa [OF assms] obtain m j where
    v: "v = real_of_int m / 2 ^ j" and j: "36 \<le> j" "j \<le> 38"
    and vlt: "v < 2 ^ 53 / 2 ^ j"
    by blast
  define x where "x = v - 30000"
  define y where "y = x / 5000"
  define K where "K = \<lfloor>y\<rfloor>"
  define g where "g = (1::real) / 2 ^ j"
  have gp: "0 < g" by (simp add: g_def)
  have fs: "fdiv (fsub v 30000) 5000 = fl64 y"
    by (simp add: price_minus_exact [OF assms] fdiv_def y_def x_def)
  have x0: "0 \<le> x" using lo by (simp add: x_def)
  then have y0: "0 \<le> y" by (simp add: y_def)
  then have K0: "0 \<le> K" by (simp add: K_def)
  have Ky: "real_of_int K \<le> y" "y < real_of_int K + 1" unfolding K_def by linarith+
  have "y < 16" using hi by (simp add: y_def x_def)
  then have "real_of_int K < real_of_int 16" using Ky(1) by simp
  then have K16: "K < 16" by (simp only: of_int_less_iff)
  have "fl64 (real_of_int K * 2 powi 0) = real_of_int K * 2 powi 0"
    using K0 K16 by (intro fl64_exact) simp_all
  then have "fl64 (real_of_int K) = real_of_int K" by simp
  moreover have "fl64 (real_of_int K) \<le> fl64 y"
    using K0 Ky(1) by (intro fl64_mono) simp_all
  ultimately have lower: "real_of_int K \<le> fl64 y" by simp
  have upper: "fl64 y < real_of_int K + 1"
  proof (cases "x = 0")
    case True
    then have "y = 0" by (simp add: y_def)
    then show ?thesis using K0 by (simp add: fl64_def)
  next
    case False
    define n where "n = m - 30000 * 2 ^ j"
    have xn: "x = real_of_int n * g" unfolding x_def v n_def g_def by (simp add: field_simps)
    have "0 < x" using x0 False by simp
    then have "0 < real_of_int n * g" unfolding xn .
    then have "0 < real_of_int n" using gp by (simp add: zero_less_mult_iff)
    then have "1 \<le> n" by simp
    then have "real_of_int 1 \<le> real_of_int n" by (simp only: of_int_le_iff)
    then have "1 * g \<le> real_of_int n * g" using gp by (intro mult_right_mono) simp_all
    then have xg: "g \<le> x" unfolding xn by simp
    have "(2::real) ^ j \<le> 2 ^ 38" using j(2) by (intro power_increasing) simp_all
    then have "(1::real) / 2 ^ 38 \<le> g" unfolding g_def by (intro divide_left_mono) simp_all
    then have "(1::real) / 2 ^ 38 / 5000 \<le> y" using xg unfolding y_def by simp
    moreover have "(2::real) powi (- 1022) \<le> 2 powi (- 51)"
      by (intro power_int_increasing) simp_all
    moreover have "(2::real) powi (- 51) \<le> 1 / 2 ^ 38 / 5000"
      by (simp add: power_int_minus)
    ultimately have "2 powi (- 1022) \<le> y" by linarith
    then have "\<bar>fl64 y - y\<bar> \<le> y * 2 powi (- 53)" by (rule fl64_rel_error)
    then have r: "fl64 y \<le> y + y * 2 powi (- 53)" by linarith
    have "x < 5000 * (real_of_int K + 1)" using Ky(2) by (simp add: y_def)
    then have "real_of_int n * g < real_of_int (5000 * (K + 1))" unfolding xn by simp
    then have "real_of_int n < real_of_int (5000 * (K + 1)) * 2 ^ j"
      unfolding g_def by (simp add: field_simps)
    then have "real_of_int n < real_of_int (5000 * (K + 1) * 2 ^ j)" by simp
    then have "n < 5000 * (K + 1) * 2 ^ j" by (simp only: of_int_less_iff)
    then have "n + 1 \<le> 5000 * (K + 1) * 2 ^ j" by simp
    then have "real_of_int (n + 1) \<le> real_of_int (5000 * (K + 1) * 2 ^ j)"
      by (simp only: of_int_le_iff)
    then have "real_of_int n + 1 \<le> 5000 * (real_of_int K + 1) * 2 ^ j" by simp
    then have "(real_of_int n + 1) * g \<le> 5000 * (real_of_int K + 1) * 2 ^ j * g"
      using gp by (intro mult_right_mono) simp_all
    moreover have "5000 * (real_of_int K + 1) * 2 ^ j * g = 5000 * (real_of_int K + 1)"
      by (simp add: g_def)
    moreover have "(real_of_int n + 1) * g = real_of_int n * g + g"
      by (simp add: distrib_right)
    ultimately have "x + g \<le> 5000 * (real_of_int K + 1)"
      unfolding xn by (simp only:)
    then have y1: "y \<le> real_of_int K + 1 - g / 5000" by (simp add: y_def)
    have "5000 * real_of_int K \<le> x" using Ky(1) by (simp add: y_def)
    then have "5000 * (real_of_int K + 1) < v" by (simp add: x_def)
    also have "v < 2 ^ 53 * g" using vlt by (simp add: g_def)
    finally have "(real_of_int K + 1) * 2 powi (- 53) < g / 5000"
      by (simp add: power_int_minus field_simps)
    moreover have "y * 2 powi (- 53) \<le> (real_of_int K + 1) * 2 powi (- 53)"
      using Ky(2) two_powi_pos [of "- 53"] by (intro mult_right_mono) simp_all
    ultimately show ?thesis using r y1 by linarith
  qed
  have "\<lfloor>fl64 y\<rfloor> = K" using lower upper by (intro floor_unique) simp_all
  then show ?thesis unfolding fs by (simp add: K_def y_def x_def)
qed

lemma last_step_index: "fsub (fdiv (fsub OVER_MIN BUCKET_MIN) BUCKET_STEP) 1 = 15"
proof -
  have "fl64 (real_of_int 80000) = real_of_int 80000" by (rule fl64_int) simp_all
  moreover have "fl64 (real_of_int 16) = real_of_int 16" by (rule fl64_int) simp_all
  moreover have "fl64 (real_of_int 15) = real_of_int 15" by (rule fl64_int) simp_all
  ultimately show ?thesis
    by (simp add: fsub_def fdiv_def OVER_MIN_def BUCKET_MIN_def BUCKET_STEP_def)
qed

lemma bucketIndex_eq:
  assumes "fl64 v = v"
  shows "bucketIndex 18 v = real (bucketPos v)"
proof (cases "v < 30000 \<or> 110000 \<le> v")
  case True
  then show ?thesis
    by (auto simp: bucketIndex_def bucketPos_def BUCKET_MIN_def OVER_MIN_def)
next
  case False
  then have lo: "30000 \<le> v" and hi: "v < 110000" by simp_all
  define K where "K = \<lfloor>(v - 30000) / 5000\<rfloor>"
  have a: "0 \<le> (v - 30000) / 5000" and b: "(v - 30000) / 5000 < 16" using lo hi by simp_all
  have f0: "0 \<le> K" unfolding K_def using a by simp
  have f1: "K \<le> 15" unfolding K_def using b by (simp add: floor_less_iff flip: zle_add1_eq_le)
  have s: "\<lfloor>fdiv (fsub v BUCKET_MIN) BUCKET_STEP\<rfloor> = K"
    unfolding BUCKET_MIN_def BUCKET_STEP_def K_def by (rule price_step_floor [OF assms lo hi])
  have r0: "0 \<le> real_of_int K" using f0 by simp
  have r1: "real_of_int K \<le> 15" using f1 by linarith
  have "fl64 (real_of_int (1 + K)) = real_of_int (1 + K)"
    using f0 f1 by (intro fl64_int) simp_all
  then have p: "fadd 1 (real_of_int K) = 1 + real_of_int K" by (simp add: fadd_def)
  have c: "max 0 (min (real_of_int K) 15) = real_of_int K" using r0 r1 by simp
  have "bucketIndex 18 v = 1 + real_of_int K"
    unfolding bucketIndex_def Let_def s last_step_index c p
    using False by (simp add: BUCKET_MIN_def OVER_MIN_def)
  moreover have "real (bucketPos v) = 1 + real_of_int K"
    using False f0 by (simp add: bucketPos_def K_def)
  ultimately show ?thesis by simp
qed

lemma inRange_nth:
  assumes "i < 18"
  shows "inRange (getFixedBucketRanges ! i) v = (bucketPos v = i)"
proof -
  consider "i = 0" | "i = 17" | "0 < i" "i < 17" using assms by linarith
  then show ?thesis
  proof cases
    case 1
    then show ?thesis
      using bucketPos_less [of v]
      by (auto simp: nth_ranges inRange_def mkBucket_def bucketPos_def)
  next
    case 2
    have "nat \<lfloor>(v - 30000) / 5000\<rfloor> < 16" if "v < 110000" "30000 \<le> v"
    proof -
      have "(v - 30000) / 5000 < 16" using that by simp
      then have "\<lfloor>(v - 30000) / 5000\<rfloor> < 16" by (simp add: floor_less_iff)
      then show ?thesis by arith
    qed
    with 2 show ?thesis
      by (auto simp: nth_ranges inRange_def mkBucket_def bucketPos_def)
  next
    case 3
    then have r: "getFixedBucketRanges ! i
        = mkBucket (Fin (25000 + 5000 * real i)) (Fin (30000 + 5000 * real i))"
      using assms by (simp add: nth_ranges)
    show ?thesis
    proof (cases "v < 30000 \<or> 110000 \<le> v")
      case True
      with 3 show ?thesis
        unfolding r by (auto simp: inRange_def mkBucket_def bucketPos_def)
    next
      case False
      then have p: "bucketPos v = 1 + nat \<lfloor>(v - 30000) / 5000\<rfloor>"
        by (simp add: bucketPos_def)
      have nn: "0 \<le> \<lfloor>(v - 30000) / 5000\<rfloor>" using False by simp
      have "(1 + nat \<lfloor>(v - 30000) / 5000\<rfloor> = i) = (\<lfloor>(v - 30000) / 5000\<rfloor> = int i - 1)"
        using nn 3 by linarith
      also have "\<dots> = (real_of_int (int i - 1) \<le> (v - 30000) / 5000
                       \<and> (v - 30000) / 5000 < real_of_int (int i - 1) + 1)"
        by (simp only: floor_eq_iff)
      also have "\<dots> = (25000 + 5000 * real i \<le> v \<and> v < 30000 + 5000 * real i)"
        by (auto simp: field_simps)
      finally show ?thesis
        unfolding r p by (simp add: inRange_def mkBucket_def)
    qed
  qed
qed

lemma priceVals_filter:
  "priceVals rs = map (\<lambda>r. finval (coercePrice (get r ''FIN_PRICE_UNEDITED'')))
       (filter (\<lambda>r. isFinite (coercePrice (get r ''FIN_PRICE_UNEDITED''))) rs)"
proof (induction rs)
  case Nil
  then show ?case by (simp add: priceVals_def map_filter_simps)
next
  case (Cons r rs)
  then show ?case
    by (cases "coercePrice (get r ''FIN_PRICE_UNEDITED'')")
      (simp_all add: priceVals_def map_filter_simps finiteOpt_def isFinite_def finval_def)
qed

lemma priceVals_double: "\<forall>v\<in>set (priceVals rs). fl64 v = v"
proof
  fix v
  assume "v \<in> set (priceVals rs)"
  then obtain r where f: "isFinite (coercePrice (get r ''FIN_PRICE_UNEDITED''))"
    and v: "v = finval (coercePrice (get r ''FIN_PRICE_UNEDITED''))"
    unfolding priceVals_filter by auto
  from isFinite_Fin [OF f] have "coercePrice (get r ''FIN_PRICE_UNEDITED'') = Fin v"
    unfolding v .
  then show "fl64 v = v" by (rule coercePrice_double)
qed

lemma sum_count_update:
  assumes "i < length bs"
  shows "sum_list (map count (bs[i := (bs ! i)\<lparr>count := count (bs ! i) + 1\<rparr>]))
     = sum_list (map count bs) + 1"
proof -
  have "sum_list (map count (bs[i := (bs ! i)\<lparr>count := count (bs ! i) + 1\<rparr>]))
      = sum_list ((map count bs)[i := count (bs ! i) + 1])"
    by (simp add: map_update)
  also have "\<dots> = sum_list (map count bs) + (count (bs ! i) + 1) - (map count bs) ! i"
    using assms by (simp add: sum_list_update)
  finally show ?thesis using assms by simp
qed

lemma bumpCount_pos:
  assumes "length bs = 18" and "fl64 v = v"
  shows "bumpCount bs (bucketIndex (length bs) v)
     = Some (bs[bucketPos v := (bs ! bucketPos v)\<lparr>count := count (bs ! bucketPos v) + 1\<rparr>])"
  using assms(1) bucketPos_less [of v]
  by (simp add: bumpCount_def bucketIndex_eq [OF assms(2)] Let_def)

lemma countLoop_props:
  assumes "length bs = 18" and "\<forall>v\<in>set vs. fl64 v = v"
  shows "\<exists>bs'. countLoop bs vs = Some bs' \<and> length bs' = 18
     \<and> sum_list (map count bs') = sum_list (map count bs) + length vs
     \<and> (\<forall>i<18. count (bs' ! i) = count (bs ! i) + length (filter (\<lambda>v. bucketPos v = i) vs)
           \<and> label (bs' ! i) = label (bs ! i) \<and> low (bs' ! i) = low (bs ! i)
           \<and> high (bs' ! i) = high (bs ! i))"
  using assms
proof (induction vs arbitrary: bs)
  case Nil
  then show ?case by simp
next
  case (Cons v vs)
  let ?b1 = "bs[bucketPos v := (bs ! bucketPos v)\<lparr>count := count (bs ! bucketPos v) + 1\<rparr>]"
  have l0: "length bs = 18" using Cons.prems(1) .
  have dv: "fl64 v = v" and dvs: "\<forall>v\<in>set vs. fl64 v = v" using Cons.prems(2) by simp_all
  have l1: "length ?b1 = 18" using l0 by simp
  have p: "bucketPos v < length bs" using l0 bucketPos_less [of v] by simp
  from Cons.IH [OF l1 dvs] obtain bs' where
    c: "countLoop ?b1 vs = Some bs'" and l: "length bs' = 18"
    and s: "sum_list (map count bs') = sum_list (map count ?b1) + length vs"
    and i: "\<forall>i<18. count (bs' ! i) = count (?b1 ! i) + length (filter (\<lambda>v. bucketPos v = i) vs)
           \<and> label (bs' ! i) = label (?b1 ! i) \<and> low (bs' ! i) = low (?b1 ! i)
           \<and> high (bs' ! i) = high (?b1 ! i)"
    by blast
  have c': "countLoop bs (v # vs) = Some bs'"
    using c by (simp add: bumpCount_pos [OF l0 dv])
  have s': "sum_list (map count bs') = sum_list (map count bs) + length (v # vs)"
    using s sum_count_update [OF p] by simp
  have i': "count (bs' ! i) = count (bs ! i) + length (filter (\<lambda>v. bucketPos v = i) (v # vs))
           \<and> label (bs' ! i) = label (bs ! i) \<and> low (bs' ! i) = low (bs ! i)
           \<and> high (bs' ! i) = high (bs ! i)" if "i < 18" for i
    using i that p l0 by (auto simp: nth_list_update)
  show ?case using c' l s' i' by blast
qed

lemma counts_zero:
  "sum_list (map count getFixedBucketRanges) = 0"
  "i < 18 \<Longrightarrow> count (getFixedBucketRanges ! i) = 0"
proof -
  show "sum_list (map count getFixedBucketRanges) = 0"
    by (simp add: ranges mkBucket_def)
  show "i < 18 \<Longrightarrow> count (getFixedBucketRanges ! i) = 0"
    by (simp add: nth_ranges mkBucket_def)
qed

lemma buildBuckets_general:
  "\<exists>h. buildBucketsForRows rs = Some h \<and> totalValid h = length (priceVals rs)
     \<and> sum_list (map count (data h)) = totalValid h
     \<and> (totalValid h = 0 \<longrightarrow> data h = [])
     \<and> (0 < totalValid h \<longrightarrow> length (data h) = 18
          \<and> (\<forall>i<18. label (data h ! i) = label (getFixedBucketRanges ! i)
                \<and> count (data h ! i)
                    = length (filter (inRange (getFixedBucketRanges ! i)) (priceVals rs))
                \<and> pct (data h ! i)
                    = fmul (fdiv (real (count (data h ! i))) (real (totalValid h))) 100))"
proof (cases "length (priceVals rs) = 0")
  case True
  then show ?thesis by (simp add: buildBucketsForRows_def Let_def)
next
  case False
  from countLoop_props [OF length_ranges priceVals_double, of rs] obtain bs where
    c: "countLoop getFixedBucketRanges (priceVals rs) = Some bs" and l: "length bs = 18"
    and s: "sum_list (map count bs) = sum_list (map count getFixedBucketRanges) + length (priceVals rs)"
    and i: "\<forall>i<18. count (bs ! i) = count (getFixedBucketRanges ! i)
                 + length (filter (\<lambda>v. bucketPos v = i) (priceVals rs))
           \<and> label (bs ! i) = label (getFixedBucketRanges ! i)
           \<and> low (bs ! i) = low (getFixedBucketRanges ! i)
           \<and> high (bs ! i) = high (getFixedBucketRanges ! i)"
    by blast
  let ?n = "length (priceVals rs)"
  let ?h = "\<lparr>data = map (\<lambda>b. \<lparr>label = label b, count = count b,
                 pct = (if 0 < ?n then fmul (fdiv (real (count b)) (real ?n)) 100 else 0)\<rparr>) bs,
             totalValid = ?n\<rparr>"
  have h: "buildBucketsForRows rs = Some ?h"
    using False c by (simp add: buildBucketsForRows_def Let_def)
  have m: "map count (data ?h) = map count bs" by (simp add: comp_def)
  have sum: "sum_list (map count (data ?h)) = totalValid ?h"
    unfolding m using s by (simp add: counts_zero)
  have per: "label (data ?h ! i) = label (getFixedBucketRanges ! i)
      \<and> count (data ?h ! i) = length (filter (inRange (getFixedBucketRanges ! i)) (priceVals rs))
      \<and> pct (data ?h ! i) = fmul (fdiv (real (count (data ?h ! i))) (real (totalValid ?h))) 100"
    if "i < 18" for i
  proof -
    have "(\<lambda>v. bucketPos v = i) = inRange (getFixedBucketRanges ! i)"
      using inRange_nth [OF that] by auto
    then show ?thesis
      using that i l False by (simp add: counts_zero)
  qed
  show ?thesis
    using h sum per l False by (intro exI [of _ ?h]) simp
qed

lemma coercePrice_29999: "coercePrice (JStr ''$29,999'') = Fin 29999"
  apply (simp add: coercePrice_def str_eval)
  apply (simp add: num_eval isFinite_def)
  done

lemma coercePrice_35200: "coercePrice (JStr ''$35,200'') = Fin 35200"
  apply (simp add: coercePrice_def str_eval)
  apply (simp add: num_eval isFinite_def)
  done

lemma coercePrice_strip:
  "coercePrice (JStr (filter (\<lambda>c. c \<noteq> CHR ''$'' \<and> c \<noteq> CHR '','') s)) = coercePrice (JStr s)"
  by (simp add: coercePrice_def)

lemma half_pct: "fmul (fdiv 1 2) 100 = 50" "fmul (fdiv 0 2) 100 = 0"
  by (simp_all add: fmul_def fdiv_def num_eval)

lemma item_eq: "(r :: item) = \<lparr>label = a, count = b, pct = c\<rparr>
    \<longleftrightarrow> label r = a \<and> count r = b \<and> pct r = c"
  by (cases r) simp

lemma histogram_scenario:
  "\<exists>h. buildBucketsForRows [[(''FIN_PRICE_UNEDITED'', JStr ''$29,999'')],
                              [(''FIN_PRICE_UNEDITED'', JStr ''$35,200'')]] = Some h
       \<and> totalValid h = 2 \<and> length (data h) = 18
       \<and> data h ! 0 = \<lparr>label = ''Under $30k'', count = 1, pct = 50\<rparr>
       \<and> data h ! 2 = \<lparr>label = ''$35k to $39.9k'', count = 1, pct = 50\<rparr>
       \<and> data h ! 1 = \<lparr>label = ''$30k to $34.9k'', count = 0, pct = 0\<rparr>"
proof -
  let ?rs = "[[(''FIN_PRICE_UNEDITED'', JStr ''$29,999'')],
              [(''FIN_PRICE_UNEDITED'', JStr ''$35,200'')]]"
  have pv: "priceVals ?rs = [29999, 35200]"
    by (simp add: priceVals_filter get_def coercePrice_29999 coercePrice_35200 isFinite_def
        finval_def)
  have bp: "bucketPos 29999 = 0" "bucketPos 35200 = 2"
    by (simp_all add: bucketPos_def)
  from buildBuckets_general [of ?rs] obtain h where
    h: "buildBucketsForRows ?rs = Some h" and t: "totalValid h = 2"
    and l: "length (data h) = 18"
    and i: "\<forall>i<18. label (data h ! i) = label (getFixedBucketRanges ! i)
                \<and> count (data h ! i)
                    = length (filter (inRange (getFixedBucketRanges ! i)) [29999, 35200])
                \<and> pct (data h ! i) = fmul (fdiv (real (count (data h ! i))) 2) 100"
    unfolding pv by auto
  have c: "count (data h ! i) = length (filter (\<lambda>v. bucketPos v = i) [29999, 35200])"
    if "i < 18" for i
    using i that inRange_nth [OF that] by simp
  have c0: "count (data h ! 0) = 1" and c1: "count (data h ! 1) = 0"
    and c2: "count (data h ! 2) = 1"
    using c [of 0] c [of 1] c [of 2] by (simp_all add: bp)
  have lb: "label (data h ! 0) = ''Under $30k''" "label (data h ! 1) = ''$30k to $34.9k''"
    "label (data h ! 2) = ''$35k to $39.9k''"
    using i by (simp_all add: nth_label)
  have p: "pct (data h ! 0) = 50" "pct (data h ! 1) = 0" "pct (data h ! 2) = 50"
    using i c0 c1 c2 by (simp_all add: half_pct)
  show ?thesis
    using h t l c0 c1 c2 lb p by (intro exI [of _ h]) (simp add: item_eq)
qed

lemma length_filter_map_filter:
  "length (filter Q (map f (filter P xs))) = length (filter (\<lambda>x. P x \<and> Q (f x)) xs)"
  by (induction xs) simp_all

lemma inRange_unique: "\<exists>!i. i < 18 \<and> inRange (getFixedBucketRanges ! i) v"
proof
  show "bucketPos v < 18 \<and> inRange (getFixedBucketRanges ! bucketPos v) v"
    using bucketPos_less [of v] inRange_nth [of "bucketPos v" v] by simp
next
  fix i
  assume "i < 18 \<and> inRange (getFixedBucketRanges ! i) v"
  then show "i = bucketPos v" using inRange_nth [of i v] by simp
qed

lemma buildBuckets_rows:
  "\<exists>h. buildBucketsForRows rs = Some h
     \<and> totalValid h
         = length (filter (\<lambda>r. isFinite (coercePrice (get r ''FIN_PRICE_UNEDITED''))) rs)
     \<and> (totalValid h = 0 \<longrightarrow> data h = [])
     \<and> (0 < totalValid h \<longrightarrow> length (data h) = 18
          \<and> (\<forall>i<18. label (data h ! i) = label (getFixedBucketRanges ! i)
                \<and> count (data h ! i)
                    = length (filter
                        (\<lambda>r. isFinite (coercePrice (get r ''FIN_PRICE_UNEDITED''))
                             \<and> inRange (getFixedBucketRanges ! i)
                                  (finval (coercePrice (get r ''FIN_PRICE_UNEDITED'')))) rs)
                \<and> pct (data h ! i)
                    = fmul (fdiv (real (count (data h ! i))) (real (totalValid h))) 100))"
proof -
  from buildBuckets_general [of rs] obtain h where
    g: "buildBucketsForRows rs = Some h \<and> totalValid h = length (priceVals rs)
     \<and> sum_list (map count (data h)) = totalValid h
     \<and> (totalValid h = 0 \<longrightarrow> data h = [])
     \<and> (0 < totalValid h \<longrightarrow> length (data h) = 18
          \<and> (\<forall>i<18. label (data h ! i) = label (getFixedBucketRanges ! i)
                \<and> count (data h ! i)
                    = length (filter (inRange (getFixedBucketRanges ! i)) (priceVals rs))
                \<and> pct (data h ! i)
                    = fmul (fdiv (real (count (data h ! i))) (real (totalValid h))) 100))" ..
  show ?thesis
    by (rule exI [of _ h]) (use g in \<open>simp add: priceVals_filter length_filter_map_filter\<close>)
qed

lemma buildBuckets_sum:
  "\<exists>h. buildBucketsForRows rs = Some h
       \<and> totalValid h
           = length (filter (\<lambda>r. isFinite (coercePrice (get r ''FIN_PRICE_UNEDITED''))) rs)
       \<and> sum_list (map count (data h)) = totalValid h"
proof -
  from buildBuckets_general [of rs] obtain h where
    g: "buildBucketsForRows rs = Some h \<and> totalValid h = length (priceVals rs)
     \<and> sum_list (map count (data h)) = totalValid h
     \<and> (totalValid h = 0 \<longrightarrow> data h = [])
     \<and> (0 < totalValid h \<longrightarrow> length (data h) = 18
          \<and> (\<forall>i<18. label (data h ! i) = label (getFixedBucketRanges ! i)
                \<and> count (data h ! i)
                    = length (filter (inRange (getFixedBucketRanges ! i)) (priceVals rs))
                \<and> pct (data h ! i)
                    = fmul (fdiv (real (count (data h ! i))) (real (totalValid h))) 100))" ..
  show ?thesis
    by (rule exI [of _ h]) (use g in \<open>simp add: priceVals_filter\<close>)
qed

text \<open>
  C6. The bins of the price histogram are fixed: an open bucket below 30000, sixteen
  buckets 5000 wide from 30000 to 110000, and an open bucket from 110000. A price is
  read after every dollar sign and comma is taken out of its string. The histogram
  counts in \<open>totalValid\<close> the rows whose price is a finite number, and when there is
  one it has the eighteen buckets, each with the label of its bin, with the number of
  rows whose finite price lies in the bin, and with that number over \<open>totalValid\<close>
  times 100 as its percentage; a row without a finite price is in no bucket. On the
  rows priced \<open>$29,999\<close> and \<open>$35,200\<close> the total is 2, the bucket \<open>Under $30k\<close> has
  count 1 and 50 percent, and the bucket \<open>$35k to $39.9k\<close> has count 1 and 50 percent.
\<close>

theorem buildBucketsForRows_fixed_bins:
  "map (\<lambda>b. (low b, high b)) getFixedBucketRanges =
     [(NegInf, Fin 30000), (Fin 30000, Fin 35000), (Fin 35000, Fin 40000),
      (Fin 40000, Fin 45000), (Fin 45000, Fin 50000), (Fin 50000, Fin 55000),
      (Fin 55000, Fin 60000), (Fin 60000, Fin 65000), (Fin 65000, Fin 70000),
      (Fin 70000, Fin 75000), (Fin 75000, Fin 80000), (Fin 80000, Fin 85000),
      (Fin 85000, Fin 90000), (Fin 90000, Fin 95000), (Fin 95000, Fin 100000),
      (Fin 100000, Fin 105000), (Fin 105000, Fin 110000), (Fin 110000, PosInf)]
   \<and> coercePrice (JStr (filter (\<lambda>c. c \<noteq> CHR ''$'' \<and> c \<noteq> CHR '','') s)) = coercePrice (JStr s)
   \<and> (\<exists>h. buildBucketsForRows rs = Some h
         \<and> totalValid h
             = length (filter (\<lambda>r. isFinite (coercePrice (get r ''FIN_PRICE_UNEDITED''))) rs)
         \<and> (totalValid h = 0 \<longrightarrow> data h = [])
         \<and> (0 < totalValid h \<longrightarrow> length (data h) = 18
              \<and> (\<forall>i<18. label (data h ! i) = label (getFixedBucketRanges ! i)
                    \<and> count (data h ! i)
                        = length (filter
                            (\<lambda>r. isFinite (coercePrice (get r ''FIN_PRICE_UNEDITED''))
                                 \<and> inRange (getFixedBucketRanges ! i)
                                      (finval (coercePrice (get r ''FIN_PRICE_UNEDITED'')))) rs)
                    \<and> pct (data h ! i)
                        = fmul (fdiv (real (count (data h ! i))) (real (totalValid h))) 100)))
   \<and> (\<exists>h. buildBucketsForRows [[(''FIN_PRICE_UNEDITED'', JStr ''$29,999'')],
                                 [(''FIN_PRICE_UNEDITED'', JStr ''$35,200'')]] = Some h
         \<and> totalValid h = 2
         \<and> data h ! 0 = \<lparr>label = ''Under $30k'', count = 1, pct = 50\<rparr>
         \<and> data h ! 2 = \<lparr>label = ''$35k to $39.9k'', count = 1, pct = 50\<rparr>)"
proof (intro conjI)
  show "map (\<lambda>b. (low b, high b)) getFixedBucketRanges =
     [(NegInf, Fin 30000), (Fin 30000, Fin 35000), (Fin 35000, Fin 40000),
      (Fin 40000, Fin 45000), (Fin 45000, Fin 50000), (Fin 50000, Fin 55000),
      (Fin 55000, Fin 60000), (Fin 60000, Fin 65000), (Fin 65000, Fin 70000),
      (Fin 70000, Fin 75000), (Fin 75000, Fin 80000), (Fin 80000, Fin 85000),
      (Fin 85000, Fin 90000), (Fin 90000, Fin 95000), (Fin 95000, Fin 100000),
      (Fin 100000, Fin 105000), (Fin 105000, Fin 110000), (Fin 110000, PosInf)]"
    by (simp add: ranges mkBucket_def)
next
  show "coercePrice (JStr (filter (\<lambda>c. c \<noteq> CHR ''$'' \<and> c \<noteq> CHR '','') s)) = coercePrice (JStr s)"
    by (rule coercePrice_strip)
next
  show "\<exists>h. buildBucketsForRows rs = Some h
         \<and> totalValid h
             = length (filter (\<lambda>r. isFinite (coercePrice (get r ''FIN_PRICE_UNEDITED''))) rs)
         \<and> (totalValid h = 0 \<longrightarrow> data h = [])
         \<and> (0 < totalValid h \<longrightarrow> length (data h) = 18
              \<and> (\<forall>i<18. label (data h ! i) = label (getFixedBucketRanges ! i)
                    \<and> count (data h ! i)
                        = length (filter
                            (\<lambda>r. isFinite (coercePrice (get r ''FIN_PRICE_UNEDITED''))
                                 \<and> inRange (getFixedBucketRanges ! i)
                                      (finval (coercePrice (get r ''FIN_PRICE_UNEDITED'')))) rs)
                    \<and> pct (data h ! i)
                        = fmul (fdiv (real (count (data h ! i))) (real (totalValid h))) 100))"
    by (rule buildBuckets_rows)
next
  from histogram_scenario obtain h where
    "buildBucketsForRows [[(''FIN_PRICE_UNEDITED'', JStr ''$29,999'')],
                               [(''FIN_PRICE_UNEDITED'', JStr ''$35,200'')]] = Some h
       \<and> totalValid h = 2 \<and> length (data h) = 18
       \<and> data h ! 0 = \<lparr>label = ''Under $30k'', count = 1, pct = 50\<rparr>
       \<and> data h ! 2 = \<lparr>label = ''$35k to $39.9k'', count = 1, pct = 50\<rparr>
       \<and> data h ! 1 = \<lparr>label = ''$30k to $34.9k'', count = 0, pct = 0\<rparr>" ..
  then show "\<exists>h. buildBucketsForRows [[(''FIN_PRICE_UNEDITED'', JStr ''$29,999'')],
                                 [(''FIN_PRICE_UNEDITED'', JStr ''$35,200'')]] = Some h
         \<and> totalValid h = 2
         \<and> data h ! 0 = \<lparr>label = ''Under $30k'', count = 1, pct = 50\<rparr>
         \<and> data h ! 2 = \<lparr>label = ''$35k to $39.9k'', count = 1, pct = 50\<rparr>"
    by (intro exI [of _ h]) simp
qed

lemma coercePrice_45000: "coercePrice (JStr ''$45,000'') = Fin 45000"
  apply (simp add: coercePrice_def str_eval)
  apply (simp add: num_eval isFinite_def)
  done

lemma coercePrice_na: "coercePrice (JStr ''n/a'') = NaN"
  by (simp add: coercePrice_def str_eval)

theorem buildBucketsForRows_fixed_bins_witness:
  "\<exists>h. buildBucketsForRows [[(''FIN_PRICE_UNEDITED'', JStr ''$45,000'')],
                            [(''FIN_PRICE_UNEDITED'', JStr ''n/a'')], []] = Some h
       \<and> totalValid h = 1 \<and> count (data h ! 4) = 1 \<and> count (data h ! 0) = 0
       \<and> label (data h ! 4) = ''$45k to $49.9k''"
proof -
  let ?rs = "[[(''FIN_PRICE_UNEDITED'', JStr ''$45,000'')],
              [(''FIN_PRICE_UNEDITED'', JStr ''n/a'')], []]"
  have bp: "inRange (getFixedBucketRanges ! 4) 45000" "\<not> inRange (getFixedBucketRanges ! 0) 45000"
    by (simp_all add: inRange_nth bucketPos_def)
  have cu: "coercePrice JUndefined = NaN" by (simp add: coercePrice_def)
  note th = conjunct1 [OF conjunct2 [OF conjunct2
    [OF buildBucketsForRows_fixed_bins [of "[]" ?rs]]]]
  from th obtain h where
    g: "buildBucketsForRows ?rs = Some h
    \<and> totalValid h
        = length (filter (\<lambda>r. isFinite (coercePrice (get r ''FIN_PRICE_UNEDITED''))) ?rs)
    \<and> (totalValid h = 0 \<longrightarrow> data h = [])
    \<and> (0 < totalValid h \<longrightarrow> length (data h) = 18
              \<and> (\<forall>i<18. label (data h ! i) = label (getFixedBucketRanges ! i)
                    \<and> count (data h ! i)
                        = length (filter
                            (\<lambda>r. isFinite (coercePrice (get r ''FIN_PRICE_UNEDITED''))
                                 \<and> inRange (getFixedBucketRanges ! i)
                                      (finval (coercePrice (get r ''FIN_PRICE_UNEDITED'')))) ?rs)
                    \<and> pct (data h ! i)
                        = fmul (fdiv (real (count (data h ! i))) (real (totalValid h))) 100))" ..
  then have h: "buildBucketsForRows ?rs = Some h" by (rule conjunct1)
  have t: "totalValid h
        = length (filter (\<lambda>r. isFinite (coercePrice (get r ''FIN_PRICE_UNEDITED''))) ?rs)"
    using g by (elim conjE)
  have t1: "totalValid h = 1"
    using t by (simp add: get_def coercePrice_45000 coercePrice_na cu isFinite_def)
  have c4: "count (data h ! 4) = 1" and c0: "count (data h ! 0) = 0"
    and l4: "label (data h ! 4) = ''$45k to $49.9k''"
    using g t1 bp
    by (simp_all add: get_def coercePrice_45000 coercePrice_na cu isFinite_def finval_def
        nth_label)
  show ?thesis using h t1 c4 c0 l4 by (intro exI [of _ h]) simp
qed

text \<open>
  C10. The histogram always returns. Its \<open>totalValid\<close> is the number of rows whose
  price is a finite number, the counts of its buckets add up to \<open>totalValid\<close>, and
  every price lies in exactly one of the eighteen bins: each finite price is counted
  once, in one bucket, and a row without a finite price in none.
\<close>

theorem buildBucketsForRows_counts_sum:
  "\<exists>h. buildBucketsForRows rs = Some h
       \<and> totalValid h
           = length (filter (\<lambda>r. isFinite (coercePrice (get r ''FIN_PRICE_UNEDITED''))) rs)
       \<and> sum_list (map count (data h)) = totalValid h
       \<and> (\<forall>v. \<exists>!i. i < 18 \<and> inRange (getFixedBucketRanges ! i) v)"
proof -
  from buildBuckets_sum [of rs] obtain h where
    g: "buildBucketsForRows rs = Some h
       \<and> totalValid h
           = length (filter (\<lambda>r. isFinite (coercePrice (get r ''FIN_PRICE_UNEDITED''))) rs)
       \<and> sum_list (map count (data h)) = totalValid h" ..
  have u: "\<forall>v. \<exists>!i. i < 18 \<and> inRange (getFixedBucketRanges ! i) v"
    using inRange_unique by (rule allI)
  have a: "buildBucketsForRows rs = Some h" using g by (rule conjunct1)
  have b: "totalValid h
           = length (filter (\<lambda>r. isFinite (coercePrice (get r ''FIN_PRICE_UNEDITED''))) rs)"
    using g by (rule conjunct1 [OF conjunct2])
  have c: "sum_list (map count (data h)) = totalValid h"
    using g by (rule conjunct2 [OF conjunct2])
  show ?thesis
    by (rule exI [of _ h]) (intro conjI a b c u)
qed

theorem buildBucketsForRows_counts_sum_witness:
  "\<exists>h. buildBucketsForRows [[(''FIN_PRICE_UNEDITED'', JStr ''$29,999'')],
                            [(''FIN_PRICE_UNEDITED'', JNull)],
                            [(''FIN_PRICE_UNEDITED'', JStr ''$35,200'')]] = Some h
       \<and> sum_list (map count (data h)) = 2"
proof -
  let ?rs = "[[(''FIN_PRICE_UNEDITED'', JStr ''$29,999'')], [(''FIN_PRICE_UNEDITED'', JNull)],
              [(''FIN_PRICE_UNEDITED'', JStr ''$35,200'')]]"
  have cn: "coercePrice JNull = NaN" by (simp add: coercePrice_def)
  from buildBucketsForRows_counts_sum [of ?rs] obtain h where
    g: "buildBucketsForRows ?rs = Some h
       \<and> totalValid h
           = length (filter (\<lambda>r. isFinite (coercePrice (get r ''FIN_PRICE_UNEDITED''))) ?rs)
       \<and> sum_list (map count (data h)) = totalValid h
       \<and> (\<forall>v. \<exists>!i. i < 18 \<and> inRange (getFixedBucketRanges ! i) v)" ..
  have h: "buildBucketsForRows ?rs = Some h" using g by (rule conjunct1)
  have t: "totalValid h
           = length (filter (\<lambda>r. isFinite (coercePrice (get r ''FIN_PRICE_UNEDITED''))) ?rs)"
    using g by (rule conjunct1 [OF conjunct2])
  have s: "sum_list (map count (data h)) = totalValid h"
    using g by (rule conjunct1 [OF conjunct2 [OF conjunct2]])
  have "totalValid h = 2"
    unfolding t by (simp add: get_def coercePrice_29999 coercePrice_35200 cn isFinite_def)
  with s h show ?thesis by (intro exI [of _ h]) simp
qed

subsection \<open>Attitude scores\<close>

lemma canonicalize_eq_iff:
  assumes "(of_char t :: nat) < 97 \<or> 122 < (of_char t :: nat)" and "(of_char t :: nat) < 128"
  shows "canonicalize c = t \<longleftrightarrow>
     (c = t \<or> (65 \<le> (of_char t :: nat) \<and> (of_char t :: nat) \<le> 90
                \<and> c = char_of ((of_char t :: nat) + 32)))"
proof -
  have c: "(of_char c :: nat) < 256" by (rule of_char_lt)
  have e: "c = t \<longleftrightarrow> (of_char c :: nat) = of_char t" by simp
  have e2: "c = char_of ((of_char t :: nat) + 32) \<longleftrightarrow> (of_char c :: nat) = of_char t + 32"
  proof
    assume "c = char_of ((of_char t :: nat) + 32)"
    then have "(of_char c :: nat) = of_char (char_of ((of_char t :: nat) + 32))" by simp
    then show "(of_char c :: nat) = of_char t + 32" using assms(2) by (simp add: of_char_of)
  next
    assume "(of_char c :: nat) = of_char t + 32"
    then have "char_of (of_char c :: nat) = char_of ((of_char t :: nat) + 32)" by simp
    then show "c = char_of ((of_char t :: nat) + 32)" by simp
  qed
  show ?thesis
    unfolding e e2 canonicalize_def Let_def
    using c assms by (auto simp: char_of_eq_iff)
qed

lemma startsWithState_iff:
  "startsWithState f \<longleftrightarrow>
     (6 \<le> length f \<and> f ! 0 \<in> {CHR ''S'', CHR ''s''} \<and> f ! 1 \<in> {CHR ''T'', CHR ''t''}
      \<and> f ! 2 \<in> {CHR ''A'', CHR ''a''} \<and> f ! 3 \<in> {CHR ''T'', CHR ''t''}
      \<and> f ! 4 \<in> {CHR ''E'', CHR ''e''} \<and> f ! 5 = CHR ''_'')"
proof -
  have S: "canonicalize c = CHR ''S'' \<longleftrightarrow> c \<in> {CHR ''S'', CHR ''s''}"
    and T: "canonicalize c = CHR ''T'' \<longleftrightarrow> c \<in> {CHR ''T'', CHR ''t''}"
    and A: "canonicalize c = CHR ''A'' \<longleftrightarrow> c \<in> {CHR ''A'', CHR ''a''}"
    and E: "canonicalize c = CHR ''E'' \<longleftrightarrow> c \<in> {CHR ''E'', CHR ''e''}"
    and U: "canonicalize c = CHR ''_'' \<longleftrightarrow> c = CHR ''_''" for c
    by (subst canonicalize_eq_iff; simp add: char_of_def bit_Suc_0_iff; blast)+
  show ?thesis
  proof (cases "6 \<le> length f")
    case False
    then have "length (map canonicalize (take 6 f)) \<noteq> length ''STATE_''" by simp
    then have "map canonicalize (take 6 f) \<noteq> ''STATE_''" by (metis)
    with False show ?thesis by (simp add: startsWithState_def)
  next
    case True
    have "take 6 f = [f ! 0, f ! 1, f ! 2, f ! 3, f ! 4, f ! 5]"
    proof (rule nth_equalityI)
      show "length (take 6 f) = length [f ! 0, f ! 1, f ! 2, f ! 3, f ! 4, f ! 5]"
        using True by simp
    next
      fix i
      assume "i < length (take 6 f)"
      then have "i < 6" by simp
      then have "i \<in> {0, 1, 2, 3, 4, 5}" by simp arith
      then show "take 6 f ! i = [f ! 0, f ! 1, f ! 2, f ! 3, f ! 4, f ! 5] ! i"
        by (elim insertE emptyE) simp_all
    qed
    with True show ?thesis
      unfolding startsWithState_def by (simp add: S T A E U)
  qed
qed

lemma normalizeLabel_shape:
  "(normalizeLabel lab = [] \<or> (\<not> isWhite (hd (normalizeLabel lab))
        \<and> \<not> isWhite (last (normalizeLabel lab))))
   \<and> noWhiteRun (normalizeLabel lab)
   \<and> (\<forall>c \<in> set (normalizeLabel lab). (isWhite c \<longrightarrow> c = CHR '' '')
         \<and> \<not> (65 \<le> (of_char c :: nat) \<and> (of_char c :: nat) \<le> 90))"
proof -
  define t where "t = toLowerCase (trim (String (coalesce lab (JStr []))))"
  have n: "normalizeLabel lab = collapseFrom False t"
    by (simp add: normalizeLabel_def collapseWhite_def t_def)
  have ends: "t = [] \<or> (\<not> isWhite (hd t) \<and> \<not> isWhite (last t))"
    using trim_ends [of "String (coalesce lab (JStr []))"]
    by (auto simp: t_def toLowerCase_def hd_map last_map isWhite_toLowerChar)
  have a: "normalizeLabel lab = [] \<or> (\<not> isWhite (hd (normalizeLabel lab))
        \<and> \<not> isWhite (last (normalizeLabel lab)))"
  proof (cases "t = []")
    case True
    then show ?thesis by (simp add: n)
  next
    case False
    with ends have "\<not> isWhite (hd t)" "\<not> isWhite (last t)" by simp_all
    then show ?thesis
      unfolding n using collapseFrom_hd [OF False, of False] collapseFrom_last [OF False, of False]
      by simp
  qed
  have b: "noWhiteRun (normalizeLabel lab)"
    unfolding n using collapseFrom_noWhiteRun [of False t] by simp
  have c: "(isWhite c \<longrightarrow> c = CHR '' '')
         \<and> \<not> (65 \<le> (of_char c :: nat) \<and> (of_char c :: nat) \<le> 90)"
    if "c \<in> set (normalizeLabel lab)" for c
  proof -
    from that have "c = CHR '' '' \<or> (c \<in> set t \<and> \<not> isWhite c)"
      unfolding n using collapseFrom_set [of False t] by auto
    then show ?thesis
    proof
      assume "c = CHR '' ''"
      then show ?thesis by simp
    next
      assume "c \<in> set t \<and> \<not> isWhite c"
      then obtain d where "c = toLowerChar d" and "\<not> isWhite c"
        by (auto simp: t_def toLowerCase_def)
      then show ?thesis using toLowerChar_not_upper [of d] by simp
    qed
  qed
  show ?thesis using a b c by blast
qed

lemma agreeLoop_counts:
  "agreeLoop f lk pol rs (a, v, m) =
     (a + length (filter (\<lambda>r. truthy (resolveMappedLabel r f lk)
                           \<and> isTopNAgree (resolveMappedLabel r f lk) pol) rs),
      v + length (filter (\<lambda>r. truthy (resolveMappedLabel r f lk)) rs),
      m + length (filter (\<lambda>r. \<not> truthy (resolveMappedLabel r f lk)) rs))"
  by (induction rs arbitrary: a v m) (simp_all add: Let_def)

lemma percentAgree_eq:
  "percentAgreeMappedPolicy rs f lk opt =
     (let valid = length (filter (\<lambda>r. truthy (resolveMappedLabel r f lk)) rs);
          missing = length (filter (\<lambda>r. \<not> truthy (resolveMappedLabel r f lk)) rs);
          agree = length (filter (\<lambda>r. truthy (resolveMappedLabel r f lk)
                     \<and> isTopNAgree (resolveMappedLabel r f lk) (agreePolicyFor f)) rs);
          denom = (if opt = Some False then valid else valid + missing)
      in if denom = 0 then NaN else Fin (fmul (fdiv (real agree) (real denom)) 100))"
  by (cases opt) (auto simp: percentAgreeMappedPolicy_def agreeLoop_counts Let_def)

lemma len_filter_conj_le: "length (filter (\<lambda>x. P x \<and> Q x) xs) \<le> length (filter P xs)"
  by (induction xs) simp_all

text \<open>
  C4. \<open>percentAgreeMappedPolicy\<close> returns NaN or a number between 0 and 100, never a
  negative number, a number above 100 or an infinity. It returns NaN exactly when its
  denominator is zero; the denominator is the number of valid rows, plus the number of
  missing rows unless the option excludes them, and with the option left out it is the
  valid rows plus the missing rows, which is every row.
\<close>

theorem percentAgree_range:
  "(let valid = length (filter (\<lambda>r. truthy (resolveMappedLabel r f lk)) rs);
        missing = length (filter (\<lambda>r. \<not> truthy (resolveMappedLabel r f lk)) rs);
        denom = (if opt = Some False then valid else valid + missing)
    in (percentAgreeMappedPolicy rs f lk opt = NaN \<longleftrightarrow> denom = 0)
       \<and> (opt = None \<longrightarrow> denom = valid + missing \<and> denom = length rs))
   \<and> (percentAgreeMappedPolicy rs f lk opt = NaN
       \<or> (\<exists>p. percentAgreeMappedPolicy rs f lk opt = Fin p \<and> 0 \<le> p \<and> p \<le> 100))"
proof -
  define valid where "valid = length (filter (\<lambda>r. truthy (resolveMappedLabel r f lk)) rs)"
  define missing where "missing = length (filter (\<lambda>r. \<not> truthy (resolveMappedLabel r f lk)) rs)"
  define agree where "agree = length (filter (\<lambda>r. truthy (resolveMappedLabel r f lk)
                     \<and> isTopNAgree (resolveMappedLabel r f lk) (agreePolicyFor f)) rs)"
  define denom where "denom = (if opt = Some False then valid else valid + missing)"
  have e: "percentAgreeMappedPolicy rs f lk opt =
      (if denom = 0 then NaN else Fin (fmul (fdiv (real agree) (real denom)) 100))"
    unfolding percentAgree_eq valid_def missing_def agree_def denom_def Let_def ..
  have av: "agree \<le> valid" unfolding agree_def valid_def by (rule len_filter_conj_le)
  then have ad: "agree \<le> denom" unfolding denom_def by simp
  have tot: "valid + missing = length rs"
    unfolding valid_def missing_def by (rule sum_length_filter_compl)
  have r: "percentAgreeMappedPolicy rs f lk opt = NaN
       \<or> (\<exists>p. percentAgreeMappedPolicy rs f lk opt = Fin p \<and> 0 \<le> p \<and> p \<le> 100)"
  proof (cases "denom = 0")
    case True
    then show ?thesis by (simp add: e)
  next
    case False
    then have "0 < denom" by simp
    from percent_range [OF ad this] show ?thesis by (simp add: e False)
  qed
  have n: "percentAgreeMappedPolicy rs f lk opt = NaN \<longleftrightarrow> denom = 0"
    by (simp add: e)
  have d: "opt = None \<longrightarrow> denom = valid + missing \<and> denom = length rs"
    using tot by (simp add: denom_def)
  show ?thesis
    using n d r unfolding valid_def missing_def denom_def Let_def by blast
qed

theorem percentAgree_range_witness:
  "percentAgreeMappedPolicy
     [[(''Q1'', JStr ''Strongly Agree'')], [(''Q2'', JStr ''x'')], [(''Q1'', JStr ''Disagree'')]]
     ''Q1'' Map.empty None \<noteq> NaN
   \<and> (\<exists>p. percentAgreeMappedPolicy
         [[(''Q1'', JStr ''Strongly Agree'')], [(''Q2'', JStr ''x'')],
          [(''Q1'', JStr ''Disagree'')]] ''Q1'' Map.empty None = Fin p \<and> 0 \<le> p \<and> p \<le> 100)"
proof -
  let ?rs = "[[(''Q1'', JStr ''Strongly Agree'')], [(''Q2'', JStr ''x'')],
              [(''Q1'', JStr ''Disagree'')]]"
  note t = percentAgree_range [of "''Q1''" Map.empty ?rs None]
  have n: "percentAgreeMappedPolicy ?rs ''Q1'' Map.empty None \<noteq> NaN"
    using conjunct1 [OF t] by (simp add: Let_def)
  with conjunct2 [OF t] show ?thesis by blast
qed

lemma single_pct: "fmul (fdiv 1 1) 100 = 100" "fmul (fdiv 0 1) 100 = 0"
  by (simp_all add: fmul_def fdiv_def fl64_1 fl64_100) (simp_all add: fl64_def)

text \<open>
  C5. The scorer decides on the normalized label, under the policy of the field: for
  the field \<open>OL_MODEL_GRP\<close> a label agrees when it normalizes to \<open>loyal\<close>; for a field
  that begins with \<open>STATE_\<close> in any mix of upper and lower case, when it normalizes to
  \<open>strongly agree\<close> or \<open>somewhat agree\<close>; for any other field, when it normalizes to
  \<open>strongly agree\<close>, \<open>agree\<close> or \<open>somewhat agree\<close>. The normalized label is the
  string trimmed, then lowered, then with each run of white space made one space: it
  neither begins nor ends with white space, has no two white neighbours, no white space
  but the space and no capital letter of the basic alphabet. The score of a single row
  is 100 when its label is there and agrees, and 0 otherwise.
\<close>

theorem attitude_agree_decision:
  "isTopNAgree lab (agreePolicyFor f) =
     (if f = ''OL_MODEL_GRP'' then normalizeLabel lab = ''loyal''
      else if 6 \<le> length f \<and> f ! 0 \<in> {CHR ''S'', CHR ''s''} \<and> f ! 1 \<in> {CHR ''T'', CHR ''t''}
              \<and> f ! 2 \<in> {CHR ''A'', CHR ''a''} \<and> f ! 3 \<in> {CHR ''T'', CHR ''t''}
              \<and> f ! 4 \<in> {CHR ''E'', CHR ''e''} \<and> f ! 5 = CHR ''_''
        then normalizeLabel lab \<in> {''strongly agree'', ''somewhat agree''}
      else normalizeLabel lab \<in> {''strongly agree'', ''agree'', ''somewhat agree''})
   \<and> normalizeLabel (JStr s) = collapseWhite (toLowerCase (trim s))
   \<and> (normalizeLabel lab = [] \<or> (\<not> isWhite (hd (normalizeLabel lab))
          \<and> \<not> isWhite (last (normalizeLabel lab))))
   \<and> noWhiteRun (normalizeLabel lab)
   \<and> (\<forall>c \<in> set (normalizeLabel lab). (isWhite c \<longrightarrow> c = CHR '' '')
         \<and> \<not> (65 \<le> (of_char c :: nat) \<and> (of_char c :: nat) \<le> 90))
   \<and> percentAgreeMappedPolicy [r] f lk None =
       (if truthy (resolveMappedLabel r f lk)
           \<and> isTopNAgree (resolveMappedLabel r f lk) (agreePolicyFor f)
        then Fin 100 else Fin 0)"
proof -
  have d: "isTopNAgree lab (agreePolicyFor f) =
     (if f = ''OL_MODEL_GRP'' then normalizeLabel lab = ''loyal''
      else if 6 \<le> length f \<and> f ! 0 \<in> {CHR ''S'', CHR ''s''} \<and> f ! 1 \<in> {CHR ''T'', CHR ''t''}
              \<and> f ! 2 \<in> {CHR ''A'', CHR ''a''} \<and> f ! 3 \<in> {CHR ''T'', CHR ''t''}
              \<and> f ! 4 \<in> {CHR ''E'', CHR ''e''} \<and> f ! 5 = CHR ''_''
        then normalizeLabel lab \<in> {''strongly agree'', ''somewhat agree''}
      else normalizeLabel lab \<in> {''strongly agree'', ''agree'', ''somewhat agree''})"
    unfolding startsWithState_iff [symmetric]
    by (simp add: isTopNAgree_def agreePolicyFor_def AGREE_TOP2_def AGREE_TOP3_def Let_def)
  have n: "normalizeLabel (JStr s) = collapseWhite (toLowerCase (trim s))"
    by (simp add: normalizeLabel_def coalesce_def nullish_def)
  have p: "percentAgreeMappedPolicy [r] f lk None =
       (if truthy (resolveMappedLabel r f lk)
           \<and> isTopNAgree (resolveMappedLabel r f lk) (agreePolicyFor f)
        then Fin 100 else Fin 0)"
    by (simp add: percentAgree_eq Let_def single_pct)
  show ?thesis
    using d n p normalizeLabel_shape [of lab] by blast
qed

lemma normalizeLabel_example:
  "normalizeLabel (JStr ''  Strongly   AGREE '') = ''strongly agree''"
  by (simp add: normalizeLabel_def coalesce_def nullish_def trim_def isWhite_def
      toLowerCase_def toLowerChar_def collapseWhite_def char_of_def bit_Suc_0_iff Let_def)

theorem attitude_agree_decision_witness:
  "isTopNAgree (JStr ''  Strongly   AGREE '') (agreePolicyFor ''state_Q1'')
   \<and> \<not> isTopNAgree (JStr ''Agree'') (agreePolicyFor ''State_Q1'')
   \<and> isTopNAgree (JStr ''Agree'') (agreePolicyFor ''Q1'')
   \<and> \<not> isTopNAgree (JStr ''Agree'') (agreePolicyFor ''OL_MODEL_GRP'')"
proof -
  have a: "normalizeLabel (JStr ''Agree'') = ''agree''"
    by (simp add: normalizeLabel_def coalesce_def nullish_def trim_def isWhite_def
      toLowerCase_def toLowerChar_def collapseWhite_def char_of_def bit_Suc_0_iff Let_def)
  show ?thesis
    using conjunct1 [OF attitude_agree_decision [of "JStr ''  Strongly   AGREE ''" "''state_Q1''"]]
      conjunct1 [OF attitude_agree_decision [of "JStr ''Agree''" "''State_Q1''"]]
      conjunct1 [OF attitude_agree_decision [of "JStr ''Agree''" "''Q1''"]]
      conjunct1 [OF attitude_agree_decision [of "JStr ''Agree''" "''OL_MODEL_GRP''"]]
    by (simp add: normalizeLabel_example a)
qed

subsection \<open>Field summaries\<close>

lemma sum_insort_key: "sum_list (map f (insort_key k x xs)) = f x + sum_list (map f xs)"
  for f :: "'a \<Rightarrow> 'b::comm_monoid_add"
  by (induction xs) (simp_all add: add.left_commute)

lemma sum_sort_key: "sum_list (map f (sort_key k xs)) = sum_list (map f xs)"
  for f :: "'a \<Rightarrow> 'b::comm_monoid_add"
  by (induction xs) (simp_all add: sum_insort_key)

lemma sum_update_bump:
  "sum_list (map snd (AList.update k (case map_of al k of None \<Rightarrow> 1 | Some c \<Rightarrow> c + 1) al))
     = sum_list (map snd al) + (1::nat)"
  by (induction al) auto

lemma pos_update_bump:
  assumes "\<forall>(l, c) \<in> set al. 0 < (c::nat)"
  shows "\<forall>(l, c) \<in> set (AList.update k (case map_of al k of None \<Rightarrow> 1 | Some c \<Rightarrow> c + 1) al).
           0 < c"
  using assms by (induction al) (auto split: option.splits)

lemma labelLoop_inv:
  assumes "sum_list (map snd counts) = v" and "\<forall>(l, c) \<in> set counts. 0 < c"
  shows "\<exists>counts' v' m'. labelLoop cm field rs (counts, v, m) = (counts', v', m')
     \<and> sum_list (map snd counts') = v' \<and> (\<forall>(l, c) \<in> set counts'. 0 < c)
     \<and> v' + m' = v + m + length rs"
  using assms
proof (induction rs arbitrary: counts v m)
  case Nil
  then show ?case by simp
next
  case (Cons r rs)
  show ?case
  proof (cases "present (get r field)")
    case False
    from Cons.IH [OF Cons.prems, of "m + 1"] False show ?thesis by auto
  next
    case True
    define lab where "lab = resolveLabel cm (get r field)"
    define counts1 where
      "counts1 = AList.update lab (case map_of counts lab of None \<Rightarrow> 1 | Some c \<Rightarrow> c + 1) counts"
    have s: "sum_list (map snd counts1) = v + 1"
      unfolding counts1_def using Cons.prems(1) by (simp add: sum_update_bump)
    have p: "\<forall>(l, c) \<in> set counts1. 0 < c"
      unfolding counts1_def using Cons.prems(2) by (rule pos_update_bump)
    have e: "labelLoop cm field (r # rs) (counts, v, m) = labelLoop cm field rs (counts1, v + 1, m)"
      using True by (simp add: Let_def lab_def counts1_def)
    from Cons.IH [OF s p, of m] show ?thesis unfolding e by auto
  qed
qed

lemma buildItems_facts:
  assumes "sum_list (map snd counts) = v" and "\<forall>(l, c) \<in> set counts. 0 < c"
  shows "sum_list (map count (buildItems counts m T)) = v + m"
    and "\<And>it. it \<in> set (buildItems counts m T) \<Longrightarrow>
           0 < count it \<and> pct it = fmul (fdiv (real (count it)) (real T)) 100"
proof -
  define mk where "mk = (\<lambda>(l, c). \<lparr>label = l, count = c,
                              pct = fmul (fdiv (real c) (real T)) 100\<rparr>)"
  define sorted where "sorted = sort_key (\<lambda>it. - int (count it)) (map mk counts)"
  define unk where "unk = \<lparr>label = ''Unknown'', count = m,
                 pct = fmul (fdiv (real m) (real T)) 100\<rparr>"
  have b: "buildItems counts m T = (if 0 < m then sorted @ [unk] else sorted)"
    by (simp add: buildItems_def sorted_def mk_def unk_def Let_def)
  have m1: "map count (map mk counts) = map snd counts"
    by (simp add: mk_def comp_def split_def)
  have "sum_list (map count sorted) = sum_list (map count (map mk counts))"
    unfolding sorted_def by (rule sum_sort_key)
  also have "\<dots> = sum_list (map snd counts)" by (simp only: m1)
  finally have s: "sum_list (map count sorted) = v" using assms(1) by simp
  show "sum_list (map count (buildItems counts m T)) = v + m"
    unfolding b using s by (simp add: unk_def)
  have e: "0 < count it \<and> pct it = fmul (fdiv (real (count it)) (real T)) 100"
    if "it \<in> set sorted" for it
  proof -
    from that obtain l c where "(l, c) \<in> set counts" and "it = mk (l, c)"
      unfolding sorted_def by auto
    with assms(2) show ?thesis by (auto simp: mk_def)
  qed
  show "0 < count it \<and> pct it = fmul (fdiv (real (count it)) (real T)) 100"
    if "it \<in> set (buildItems counts m T)" for it
    using that e unfolding b by (auto simp: unk_def split: if_splits)
qed

lemma absorbDrift_counts:
  "map count (absorbDrift its) = map count its \<and> map label (absorbDrift its) = map label its"
proof (cases "fl64 (1 / 10) < \<bar>fsub (sumPct its) 100\<bar> \<and> 0 < length its")
  case True
  then have n: "its \<noteq> []" by auto
  have "map count (butlast its @ [last its]) = map count its"
    "map label (butlast its @ [last its]) = map label its"
    using n by simp_all
  then show ?thesis using True by (simp add: absorbDrift_def Let_def)
next
  case False
  then show ?thesis by (auto simp: absorbDrift_def)
qed

lemma categoricalSection_general:
  assumes "srcAll \<noteq> []" and "length srcAll < 2 ^ 53"
  shows "\<exists>counts missingCount.
     categoricalSection srcAll field cm
       = Some (Categorical field
           (absorbDrift (buildItems counts missingCount (length srcAll))) (length srcAll))
     \<and> sum_list (map count (buildItems counts missingCount (length srcAll))) = length srcAll
     \<and> (\<forall>it \<in> set (buildItems counts missingCount (length srcAll)).
           pct it = fmul (fdiv (real (count it)) (real (length srcAll))) 100)
     \<and> \<bar>sum_list (map pct (buildItems counts missingCount (length srcAll))) - 100\<bar>
           \<le> 100 * (2 * 2 powi (- 53) + 2 powi (- 53) * 2 powi (- 53))"
proof -
  from labelLoop_inv [of "[]" 0 cm field srcAll 0] obtain counts v m where
    l: "labelLoop cm field srcAll ([], 0, 0) = (counts, v, m)"
    and s: "sum_list (map snd counts) = v" and p: "\<forall>(l, c) \<in> set counts. 0 < c"
    and t: "v + m = length srcAll"
    by auto
  define T where "T = length srcAll"
  define its where "its = buildItems counts m T"
  have Tp: "0 < T" using assms(1) by (simp add: T_def)
  have nz: "v + m \<noteq> 0" using t assms(1) by auto
  have c: "categoricalSection srcAll field cm = Some (Categorical field (absorbDrift its) T)"
    unfolding categoricalSection_def l its_def T_def t [symmetric] using nz by (simp add: Let_def)
  have sc: "sum_list (map count its) = T"
    unfolding its_def using buildItems_facts(1) [OF s p, of m T] t by (simp add: T_def)
  have pc: "0 < count it \<and> pct it = fmul (fdiv (real (count it)) (real T)) 100"
    if "it \<in> set its" for it
    using that buildItems_facts(2) [OF s p, of it m T] by (simp add: its_def)
  have le: "count it \<le> T" if "it \<in> set its" for it
    using that sc member_le_sum_list [of "count it" "map count its"] by auto
  define k where "k = 2 * (2::real) powi (- 53) + 2 powi (- 53) * 2 powi (- 53)"
  have "\<bar>pct it - 100 * (real (count it) / real T)\<bar> \<le> k * (100 * (real (count it) / real T))"
    if "it \<in> set its" for it
    using pct_error [of "count it" T] pc [OF that] le [OF that] assms(2)
    by (simp add: k_def T_def)
  then have "\<bar>sum_list (map pct its) - sum_list (map (\<lambda>it. 100 * (real (count it) / real T)) its)\<bar>
      \<le> k * sum_list (map (\<lambda>it. 100 * (real (count it) / real T)) its)"
    by (rule sum_list_error)
  moreover have "sum_list (map (\<lambda>it. 100 * (real (count it) / real T)) its) = 100"
  proof -
    have "sum_list (map (\<lambda>it. 100 * (real (count it) / real T)) its)
        = 100 * (real (sum_list (map count its)) / real T)"
      by (induction its) (simp_all add: distrib_left add_divide_distrib)
    then show ?thesis using sc Tp by simp
  qed
  ultimately have d: "\<bar>sum_list (map pct its) - 100\<bar> \<le> 100 * k" by simp
  show ?thesis
    using c sc pc d unfolding its_def T_def k_def by blast
qed

lemma pct_2_3: "fmul (fdiv 2 3) 100 = 2345624805922133 / 35184372088832"
  by (simp add: fmul_def fdiv_def num_eval)

lemma pct_1_3: "fmul (fdiv 1 3) 100 = 2345624805922133 / 70368744177664"
  by (simp add: fmul_def fdiv_def num_eval)

lemma sum_2_1: "fadd (fadd 0 (2345624805922133 / 35184372088832)) (2345624805922133 / 70368744177664)
    = 7036874417766399 / 70368744177664"
  by (simp add: fadd_def num_eval)

lemma drift_2_1: "\<not> fl64 (1 / 10) < \<bar>fsub (7036874417766399 / 70368744177664) 100\<bar>"
  by (simp add: fsub_def num_eval)

lemma label_A: "resolveLabel Map.empty (JStr ''A'') = ''A''"
  "resolveLabel Map.empty (JStr ''B'') = ''B''"
  by (simp_all add: resolveLabel_def lookupNum_def str_eval Let_def isFinite_def)

lemma loop_AAB:
  "labelLoop Map.empty ''AGE''
     [[(''AGE'', JStr ''A'')], [(''AGE'', JStr ''A'')], [(''AGE'', JStr ''B'')]] ([], 0, 0)
   = ([(''A'', 2), (''B'', 1)], 3, 0)"
  by (simp add: get_def present_def trim_def isWhite_def label_A)

text \<open>
  C1, as the code has it. For every field summarized categorically over at least one
  row (and fewer than \<open>2 ^ 53\<close>, the counts a double holds exactly), the counts of the
  items, the item \<open>Unknown\<close> of the missing rows among them, add up to the total, and
  every percentage is the double of count over total times 100. So the percentages add
  up to 100 but for the rounding: before any correction their sum is within
  \<open>100 * (2 powi (-52) + 2 powi (-106))\<close> of 100. The last item takes up the drift
  only when the sum that the code computes is more than 0.1 away from 100; then the
  difference is added to its percentage, and otherwise the items stay as they are.
  Counts and labels are never changed.
\<close>

theorem categoricalSection_percentages:
  assumes "srcAll \<noteq> []" and "length srcAll < 2 ^ 53"
  shows "\<exists>items0.
     categoricalSection srcAll field cm
       = Some (Categorical field (absorbDrift items0) (length srcAll))
     \<and> sum_list (map count items0) = length srcAll
     \<and> (\<forall>it \<in> set items0. pct it = fmul (fdiv (real (count it)) (real (length srcAll))) 100)
     \<and> \<bar>sum_list (map pct items0) - 100\<bar> \<le> 100 * (2 powi (- 52) + 2 powi (- 106))
     \<and> map count (absorbDrift items0) = map count items0
     \<and> map label (absorbDrift items0) = map label items0
     \<and> absorbDrift items0 =
         (if fl64 (1 / 10) < \<bar>fsub (sumPct items0) 100\<bar>
          then butlast items0
               @ [(last items0)\<lparr>pct := fadd (pct (last items0)) (fsub 100 (sumPct items0))\<rparr>]
          else items0)"
proof -
  from categoricalSection_general [OF assms, of field cm] obtain counts missingCount where
    g: "categoricalSection srcAll field cm
       = Some (Categorical field
           (absorbDrift (buildItems counts missingCount (length srcAll))) (length srcAll))
     \<and> sum_list (map count (buildItems counts missingCount (length srcAll))) = length srcAll
     \<and> (\<forall>it \<in> set (buildItems counts missingCount (length srcAll)).
           pct it = fmul (fdiv (real (count it)) (real (length srcAll))) 100)
     \<and> \<bar>sum_list (map pct (buildItems counts missingCount (length srcAll))) - 100\<bar>
           \<le> 100 * (2 * 2 powi (- 53) + 2 powi (- 53) * 2 powi (- 53))"
    by blast
  define items0 where "items0 = buildItems counts missingCount (length srcAll)"
  have a: "categoricalSection srcAll field cm
       = Some (Categorical field (absorbDrift items0) (length srcAll))"
    and b: "sum_list (map count items0) = length srcAll"
    and c: "\<forall>it \<in> set items0. pct it = fmul (fdiv (real (count it)) (real (length srcAll))) 100"
    and d0: "\<bar>sum_list (map pct items0) - 100\<bar>
           \<le> 100 * (2 * 2 powi (- 53) + 2 powi (- 53) * 2 powi (- 53))"
    using g unfolding items0_def by simp_all
  have "(2 * 2 powi (- 53) + 2 powi (- 53) * 2 powi (- 53) :: real) = 2 powi (- 52) + 2 powi (- 106)"
    by simp
  with d0 have d: "\<bar>sum_list (map pct items0) - 100\<bar> \<le> 100 * (2 powi (- 52) + 2 powi (- 106))"
    by (simp only:)
  have ne: "items0 \<noteq> []" using b assms(1) by auto
  have e: "absorbDrift items0 =
         (if fl64 (1 / 10) < \<bar>fsub (sumPct items0) 100\<bar>
          then butlast items0
               @ [(last items0)\<lparr>pct := fadd (pct (last items0)) (fsub 100 (sumPct items0))\<rparr>]
          else items0)"
    using ne by (simp add: absorbDrift_def Let_def)
  show ?thesis
    by (rule exI [of _ items0])
      (intro conjI a b c d conjunct1 [OF absorbDrift_counts] conjunct2 [OF absorbDrift_counts] e)
qed

theorem categoricalSection_percentages_witness:
  "\<exists>items0.
     categoricalSection [[(''model'', JStr ''A''), (''AGE'', JStr ''25-34'')],
                         [(''model'', JStr ''B'')]] ''AGE'' Map.empty
       = Some (Categorical ''AGE'' (absorbDrift items0) 2)
     \<and> sum_list (map count items0) = 2
     \<and> \<bar>sum_list (map pct items0) - 100\<bar> \<le> 100 * (2 powi (- 52) + 2 powi (- 106))"
proof -
  let ?rs = "[[(''model'', JStr ''A''), (''AGE'', JStr ''25-34'')], [(''model'', JStr ''B'')]]"
  have h1: "?rs \<noteq> []" by simp
  have h2: "length ?rs < 2 ^ 53" by simp
  from categoricalSection_percentages [OF h1 h2, of "''AGE''" Map.empty] obtain items0 where
    a: "categoricalSection ?rs ''AGE'' Map.empty
       = Some (Categorical ''AGE'' (absorbDrift items0) (length ?rs))"
    and b: "sum_list (map count items0) = length ?rs"
    and d: "\<bar>sum_list (map pct items0) - 100\<bar> \<le> 100 * (2 powi (- 52) + 2 powi (- 106))"
    by blast
  have l: "length ?rs = 2" by simp
  show ?thesis
    by (rule exI [of _ items0]) (intro conjI a [unfolded l] b [unfolded l] d)
qed

text \<open>
  The claim as the specification states it fails on three rows with the values \<open>A\<close>,
  \<open>A\<close> and \<open>B\<close>: the percentages are the doubles \<open>66.66666666666666\<close> and
  \<open>33.33333333333333\<close>, their sum is \<open>99.99999999999999\<close>, whether it is taken
  exactly or as the code adds it, and no item is corrected, the drift being below 0.1.
\<close>

theorem categoricalSection_percentages_counterexample:
  "categoricalSection [[(''AGE'', JStr ''A'')], [(''AGE'', JStr ''A'')], [(''AGE'', JStr ''B'')]]
     ''AGE'' Map.empty
   = Some (Categorical ''AGE''
       [\<lparr>label = ''A'', count = 2, pct = 2345624805922133 / 35184372088832\<rparr>,
        \<lparr>label = ''B'', count = 1, pct = 2345624805922133 / 70368744177664\<rparr>] 3)
   \<and> sum_list (map pct
       [\<lparr>label = ''A'', count = 2, pct = 2345624805922133 / 35184372088832\<rparr>,
        \<lparr>label = ''B'', count = 1, pct = 2345624805922133 / 70368744177664\<rparr>])
      = 7036874417766399 / 70368744177664
   \<and> sumPct
       [\<lparr>label = ''A'', count = 2, pct = 2345624805922133 / 35184372088832\<rparr>,
        \<lparr>label = ''B'', count = 1, pct = 2345624805922133 / 70368744177664\<rparr>]
      = 7036874417766399 / 70368744177664
   \<and> (7036874417766399 / 70368744177664 :: real) < 100"
proof -
  have s: "categoricalSection
     [[(''AGE'', JStr ''A'')], [(''AGE'', JStr ''A'')], [(''AGE'', JStr ''B'')]]
     ''AGE'' Map.empty
   = Some (Categorical ''AGE''
       [\<lparr>label = ''A'', count = 2, pct = 2345624805922133 / 35184372088832\<rparr>,
        \<lparr>label = ''B'', count = 1, pct = 2345624805922133 / 70368744177664\<rparr>] 3)"
    unfolding categoricalSection_def loop_AAB
    by (simp add: buildItems_def absorbDrift_def pct_2_3 pct_1_3 sumPct_def sum_2_1 drift_2_1
        Let_def)
  show ?thesis
    by (intro conjI s) (simp_all add: sumPct_def sum_2_1)
qed

end
